theory Spec2Isabelle
  imports Main
begin

unbundle bit_operations_syntax

section \<open>Errors and results\<close>

text \<open>
  Every \<^verbatim>\<open>throw\<close> of the source is a value of \<open>error\<close>:
  \<^item> \<open>AssertionError\<close>: \<^verbatim>\<open>assert(stmt, message)\<close> with a false statement;
  \<^item> \<open>StopOffsetError\<close>: \<^verbatim>\<open>Error('stop offset must be greater than start offset')\<close>;
  \<^item> \<open>BitLengthError\<close>: \<^verbatim>\<open>Error('stop must be less than bit-length')\<close>;
  \<^item> \<open>FieldAssertEquals\<close>: \<^verbatim>\<open>x.assertEquals(y)\<close> on two different values;
  \<^item> \<open>DivisionByZero\<close>: \<^verbatim>\<open>x.div(y)\<close> with \<open>y = 0\<close>;
  \<^item> \<open>RangeError\<close>: \<^verbatim>\<open>Array(n)\<close> with \<open>n\<close> negative or \<^verbatim>\<open>NaN\<close>;
  \<^item> \<open>TypeError\<close>: a read past the end of an array gives \<^verbatim>\<open>undefined\<close>, and the
    program hands it to a Field operation, which raises a TypeError.
  A function that throws returns \<open>Inl\<close> of the error. A function whose recursion may go on
  for ever returns an \<open>option\<close> on top: \<open>None\<close> is the call that never returns (in JavaScript
  the recursion ends by exhausting the call stack).
\<close>

datatype error = AssertionError | StopOffsetError | BitLengthError | FieldAssertEquals
  | DivisionByZero | RangeError | TypeError

definition bindE :: "error + 'a \<Rightarrow> ('a \<Rightarrow> error + 'b) \<Rightarrow> error + 'b" where
  "bindE m f = (case m of Inl e \<Rightarrow> Inl e | Inr v \<Rightarrow> f v)"

definition assert :: "bool \<Rightarrow> error + unit" where
  "assert stmt = (if \<not> stmt then Inl AssertionError else Inr ())"

section \<open>JavaScript arrays\<close>

text \<open>\<^verbatim>\<open>xs.slice(start, end)\<close>: a negative offset counts from the end, both are clamped.\<close>

definition js_slice :: "'a list \<Rightarrow> int \<Rightarrow> int \<Rightarrow> 'a list" where
  "js_slice xs start stop =
     (let n = int (length xs);
          s = (if start < 0 then max (n + start) 0 else min start n);
          e = (if stop < 0 then max (n + stop) 0 else min stop n)
      in take (nat (e - s)) (drop (nat s) xs))"

section \<open>Field elements\<close>

text \<open>
  Modelled from the spec: the class \<^verbatim>\<open>Field\<close> (\<^verbatim>\<open>field.js\<close>) is not among the sources. The
  spec describes a field element as a value of a fixed large prime field of bit width 255,
  with add, sub, mul and div modulo the prime and a decomposition into 255 bits, least
  significant first. A field element is modelled by its value, an \<open>int\<close> in
  \<open>{0..<Field_ORDER}\<close>; the functions below are executed for their values, as in the
  witness-computation pass. \<open>Field_ORDER\<close> is the modulus of the Pallas base field; the
  proofs use only that it is odd and lies between \<open>2 ^ 254\<close> and \<open>2 ^ 255\<close>.
\<close>

definition Field_ORDER :: int where
  "Field_ORDER = 0x40000000000000000000000000000000224698fc094cf91b992d30ed00000001"

definition Field_sizeInBits :: int where
  "Field_sizeInBits = 255"

definition Field_new :: "int \<Rightarrow> int" where
  "Field_new x = x mod Field_ORDER"

definition Field_add :: "int \<Rightarrow> int \<Rightarrow> int" where
  "Field_add x y = (x + y) mod Field_ORDER"

definition Field_sub :: "int \<Rightarrow> int \<Rightarrow> int" where
  "Field_sub x y = (x - y) mod Field_ORDER"

definition Field_mul :: "int \<Rightarrow> int \<Rightarrow> int" where
  "Field_mul x y = (x * y) mod Field_ORDER"

text \<open>
  The inverse by the extended Euclidean algorithm: the loop keeps \<open>x * a0 = b\<close> and
  \<open>u * a0 = a\<close> modulo the prime, and stops at \<open>a = 0\<close> with \<open>b\<close> the greatest common divisor.
\<close>

function inverse_loop :: "int \<Rightarrow> int \<Rightarrow> int \<Rightarrow> int \<Rightarrow> int \<times> int" where
  "inverse_loop a b x u =
     (if a \<le> 0 then (b, x) else inverse_loop (b mod a) a u (x - u * (b div a)))"
  by pat_completeness auto
termination
  by (relation "measure (\<lambda>(a, b, x, u). nat a)") auto

declare inverse_loop.simps [simp del]

definition Field_inv :: "int \<Rightarrow> int" where
  "Field_inv y = snd (inverse_loop (y mod Field_ORDER) Field_ORDER 0 1) mod Field_ORDER"

definition Field_div :: "int \<Rightarrow> int \<Rightarrow> error + int" where
  "Field_div x y =
     (if y mod Field_ORDER = 0 then Inl DivisionByZero else Inr (Field_mul x (Field_inv y)))"

definition Field_toBits :: "int \<Rightarrow> bool list" where
  "Field_toBits x = map (bit x) [0..<nat Field_sizeInBits]"

definition Field_fromBits :: "bool list \<Rightarrow> int" where
  "Field_fromBits bits = Field_new (horner_sum of_bool 2 bits)"

definition Field_assertEquals :: "int \<Rightarrow> int \<Rightarrow> error + unit" where
  "Field_assertEquals x y = (if x = y then Inr () else Inl FieldAssertEquals)"

section \<open>The recursive XOR gadget\<close>

text \<open>
  Modelled from the spec: \<^verbatim>\<open>Provable.witness\<close>, \<^verbatim>\<open>Provable.asProver\<close> and the module
  \<^verbatim>\<open>Gates\<close> are not among the sources. In the witness-computation pass, which the
  functions below follow, \<^verbatim>\<open>witness\<close> and \<^verbatim>\<open>asProver\<close> run their callbacks on the values.
  The rows that the gadget asks the \<^verbatim>\<open>Gates\<close> module to add: \<^verbatim>\<open>Gates.xor\<close> adds an
  \<open>XorChain\<close> row and \<^verbatim>\<open>Gates.zeroCheck\<close> a \<open>ZeroCheck\<close> row. The functions thread the list
  of rows added so far. The arrays \<^verbatim>\<open>input1Array\<close> and \<^verbatim>\<open>input2Array\<close> that \<^verbatim>\<open>xor\<close> fills
  are never read and are left out.
\<close>

datatype gate = XorChain | ZeroCheck

definition fitsInBits :: "int \<Rightarrow> int \<Rightarrow> error + unit" where
  "fitsInBits word len = assert (word < 2 ^ nat len)"

definition fieldBitsToFieldLE :: "int \<Rightarrow> int \<Rightarrow> int \<Rightarrow> error + int" where
  "fieldBitsToFieldLE f start stop =
     (if stop \<noteq> - 1 \<and> stop \<le> start then Inl StopOffsetError
      else
        let bits = Field_toBits f in
        if stop > int (length bits) then Inl BitLengthError
        else
          let stop' = (if stop = - 1 then int (length bits) else stop)
          in Inr (Field_fromBits (js_slice bits start stop')))"

definition ofBits :: "int \<Rightarrow> int \<Rightarrow> int \<Rightarrow> error + int" where
  "ofBits f start stop =
     (if stop \<noteq> - 1 \<and> stop \<le> start then Inl StopOffsetError
      else fieldBitsToFieldLE f start stop)"

definition asProverNextVar :: "int \<Rightarrow> int \<Rightarrow> int \<Rightarrow> int \<Rightarrow> int \<Rightarrow> int \<Rightarrow> error + int" where
  "asProverNextVar current var0 var1 var2 var3 len_xor =
     (let twoPowLen = Field_new (2 ^ nat len_xor);
          twoPow2Len = Field_mul twoPowLen twoPowLen;
          twoPow3Len = Field_mul twoPow2Len twoPowLen;
          twoPow4Len = Field_mul twoPow3Len twoPowLen
      in Field_div
           (Field_sub (Field_sub (Field_sub (Field_sub current var0)
              (Field_mul var1 twoPowLen)) (Field_mul var2 twoPow2Len)) (Field_mul var3 twoPow3Len))
           twoPow4Len)"

text \<open>
  The four nibbles of one operand, in the order of the source:
  \<^verbatim>\<open>ofBits(f, 0, first)\<close>, \<^verbatim>\<open>ofBits(f, first, second)\<close>, \<^verbatim>\<open>ofBits(f, second, third)\<close>,
  \<^verbatim>\<open>ofBits(f, third, fourth)\<close>.
\<close>

definition nibbles :: "int \<Rightarrow> int \<Rightarrow> error + (int \<times> int \<times> int \<times> int)" where
  "nibbles f len_xor =
     (let first = len_xor;
          second = first + len_xor;
          third = second + len_xor;
          fourth = third + len_xor
      in bindE (ofBits f 0 first) (\<lambda>n0.
         bindE (ofBits f first second) (\<lambda>n1.
         bindE (ofBits f second third) (\<lambda>n2.
         bindE (ofBits f third fourth) (\<lambda>n3.
         Inr (n0, n1, n2, n3))))))"

text \<open>
  The \<^verbatim>\<open>else\<close> branch of \<^verbatim>\<open>xorRec\<close> up to its recursive call: the twelve nibbles, the
  \<^verbatim>\<open>Gates.xor\<close> row and the three next operands.
\<close>

definition xorRec_step ::
  "int \<Rightarrow> int \<Rightarrow> int \<Rightarrow> int \<Rightarrow> gate list \<Rightarrow> error + (int \<times> int \<times> int \<times> gate list)" where
  "xorRec_step input1 input2 outputXor len_xor cs =
     bindE (nibbles input1 len_xor) (\<lambda>(in1_0, in1_1, in1_2, in1_3).
     bindE (nibbles input2 len_xor) (\<lambda>(in2_0, in2_1, in2_2, in2_3).
     bindE (nibbles outputXor len_xor) (\<lambda>(out_0, out_1, out_2, out_3).
     let cs' = cs @ [XorChain] in
     bindE (asProverNextVar input1 in1_0 in1_1 in1_2 in1_3 len_xor) (\<lambda>next_in1.
     bindE (asProverNextVar input2 in2_0 in2_1 in2_2 in2_3 len_xor) (\<lambda>next_in2.
     bindE (asProverNextVar outputXor out_0 out_1 out_2 out_3 len_xor) (\<lambda>next_out.
     Inr (next_in1, next_in2, next_out, cs')))))))"

partial_function (option) xorRec ::
  "int \<Rightarrow> int \<Rightarrow> int \<Rightarrow> int \<Rightarrow> int \<Rightarrow> gate list \<Rightarrow> (error + gate list) option" where
  "xorRec input1 input2 outputXor padLength len_xor cs =
     (if padLength = 0 then
        (let cs' = cs @ [ZeroCheck]
         in Some (bindE (Field_assertEquals 0 input1) (\<lambda>_.
                  bindE (Field_assertEquals 0 input2) (\<lambda>_.
                  bindE (Field_assertEquals 0 outputXor) (\<lambda>_. Inr cs')))))
      else
        (case xorRec_step input1 input2 outputXor len_xor cs of
           Inl e \<Rightarrow> Some (Inl e)
         | Inr (next_in1, next_in2, next_out, cs') \<Rightarrow>
             (let next_length = padLength - 4 * len_xor
              in xorRec next_in1 next_in2 next_out next_length len_xor cs')))"

declare xorRec.simps [code]

text \<open>
  The pad length as \<^verbatim>\<open>xor\<close> computes it (\<open>len\<close>, the source's \<^verbatim>\<open>length\<close>, and \<open>len_xor\<close> are positive there, so
  that \<^verbatim>\<open>%\<close> is \<open>mod\<close>).
\<close>

definition xor_padLength :: "int \<Rightarrow> int \<Rightarrow> int" where
  "xor_padLength len len_xor =
     (let padLength = len_xor
      in if len mod (4 * len_xor) \<noteq> 0
         then len + 4 * len_xor - (len mod (4 * len_xor))
         else padLength)"

text \<open>
  The witness \<^verbatim>\<open>outputXor\<close>: both operands are checked to fit and their bits are combined
  position by position with \<^verbatim>\<open>b1.equals(b2).not()\<close>.
\<close>

definition xor_witness :: "int \<Rightarrow> int \<Rightarrow> int \<Rightarrow> error + int" where
  "xor_witness a b len =
     bindE (fitsInBits a len) (\<lambda>_.
     bindE (fitsInBits b len) (\<lambda>_.
     let input1Bits = Field_toBits a;
         input2Bits = Field_toBits b;
         outputBits = map2 (\<lambda>b1 b2. \<not> (b1 = b2)) input1Bits input2Bits
     in Inr (Field_fromBits outputBits)))"

definition xor :: "int \<Rightarrow> int \<Rightarrow> int \<Rightarrow> int \<Rightarrow> gate list \<Rightarrow> (error + int \<times> gate list) option" where
  "xor a b len len_xor cs =
     (case bindE (assert (len > 0 \<and> len_xor > 0)) (\<lambda>_.
           bindE (assert (len \<le> Field_sizeInBits)) (\<lambda>_.
           bindE (fitsInBits a len) (\<lambda>_.
           bindE (fitsInBits b len) (\<lambda>_.
           xor_witness a b len)))) of
        Inl e \<Rightarrow> Some (Inl e)
      | Inr outputXor \<Rightarrow>
          (let padLength = xor_padLength len len_xor
           in case xorRec a b outputXor padLength len_xor cs of
                None \<Rightarrow> None
              | Some (Inl e) \<Rightarrow> Some (Inl e)
              | Some (Inr cs') \<Rightarrow> Some (Inr (outputXor, cs'))))"


section \<open>Keccak: constants\<close>

definition KECCAK_DIM :: nat where
  "KECCAK_DIM = 5"

definition KECCAK_ELL :: nat where
  "KECCAK_ELL = 6"

definition KECCAK_WORD :: int where
  "KECCAK_WORD = 2 ^ KECCAK_ELL"

definition BYTES_PER_WORD :: int where
  "BYTES_PER_WORD = KECCAK_WORD div 8"

definition KECCAK_STATE_LENGTH_WORDS :: int where
  "KECCAK_STATE_LENGTH_WORDS = int (KECCAK_DIM ^ 2)"

definition KECCAK_STATE_LENGTH :: int where
  "KECCAK_STATE_LENGTH = KECCAK_STATE_LENGTH_WORDS * KECCAK_WORD"

definition KECCAK_STATE_LENGTH_BYTES :: int where
  "KECCAK_STATE_LENGTH_BYTES = KECCAK_STATE_LENGTH div 8"

definition ROT_TABLE :: "nat list list" where
  "ROT_TABLE =
     [[0, 36, 3, 41, 18],
      [1, 44, 10, 45, 2],
      [62, 6, 43, 15, 61],
      [28, 55, 25, 21, 56],
      [27, 20, 39, 8, 14]]"

definition ROUND_CONSTANTS :: "int list" where
  "ROUND_CONSTANTS =
     [0x0000000000000001, 0x0000000000008082, 0x800000000000808a, 0x8000000080008000,
      0x000000000000808b, 0x0000000080000001, 0x8000000080008081, 0x8000000000008009,
      0x000000000000008a, 0x0000000000000088, 0x0000000080008009, 0x000000008000000a,
      0x000000008000808b, 0x800000000000008b, 0x8000000000008089, 0x8000000000008003,
      0x8000000000008002, 0x8000000000000080, 0x000000000000800a, 0x800000008000000a,
      0x8000000080008081, 0x8000000000008080, 0x0000000080000001, 0x8000000080008008]"

section \<open>Keccak: results, arrays and numbers\<close>

text \<open>
  A result that may also fail to arrive: \<open>None\<close> is a call that never returns, \<open>Some (Inl e)\<close>
  a throw, \<open>Some (Inr v)\<close> a return.
\<close>

type_synonym 'a res = "(error + 'a) option"

definition bindR :: "'a res \<Rightarrow> ('a \<Rightarrow> 'b res) \<Rightarrow> 'b res" where
  "bindR m f = (case m of None \<Rightarrow> None | Some (Inl e) \<Rightarrow> Some (Inl e) | Some (Inr v) \<Rightarrow> f v)"

text \<open>\<^verbatim>\<open>xs.map(f)\<close>, left to right, stopping at the first call that does not return a value.\<close>

fun mapE :: "('a \<Rightarrow> error + 'b) \<Rightarrow> 'a list \<Rightarrow> error + 'b list" where
  "mapE f [] = Inr []"
| "mapE f (x # xs) = bindE (f x) (\<lambda>y. bindE (mapE f xs) (\<lambda>ys. Inr (y # ys)))"

fun mapR :: "('a \<Rightarrow> 'b res) \<Rightarrow> 'a list \<Rightarrow> 'b list res" where
  "mapR f [] = Some (Inr [])"
| "mapR f (x # xs) = bindR (f x) (\<lambda>y. bindR (mapR f xs) (\<lambda>ys. Some (Inr (y # ys))))"

text \<open>\<^verbatim>\<open>xs.reduce(f, init)\<close>, and a loop that threads a value through a list of indices.\<close>

fun foldE :: "('b \<Rightarrow> 'a \<Rightarrow> error + 'b) \<Rightarrow> 'b \<Rightarrow> 'a list \<Rightarrow> error + 'b" where
  "foldE f acc [] = Inr acc"
| "foldE f acc (x # xs) = bindE (f acc x) (\<lambda>acc'. foldE f acc' xs)"

fun foldR :: "('b \<Rightarrow> 'a \<Rightarrow> 'b res) \<Rightarrow> 'b \<Rightarrow> 'a list \<Rightarrow> 'b res" where
  "foldR f acc [] = Some (Inr acc)"
| "foldR f acc (x # xs) = bindR (f acc x) (\<lambda>acc'. foldR f acc' xs)"

text \<open>\<^verbatim>\<open>xs.reduce(f)\<close> without an initial value: a TypeError on the empty array.\<close>

fun reduceR :: "('a \<Rightarrow> 'a \<Rightarrow> 'a res) \<Rightarrow> 'a list \<Rightarrow> 'a res" where
  "reduceR f [] = Some (Inl TypeError)"
| "reduceR f (x # xs) = foldR f x xs"

text \<open>
  \<^verbatim>\<open>xs[i]\<close> and \<^verbatim>\<open>xs[i][j]\<close>. Past the end JavaScript reads \<^verbatim>\<open>undefined\<close>; every read of
  this program goes to a Field operation or to a second index, which raise a TypeError on it.
\<close>

definition js_nth :: "'a list \<Rightarrow> nat \<Rightarrow> error + 'a" where
  "js_nth xs i = (if i < length xs then Inr (xs ! i) else Inl TypeError)"

definition js_nth2 :: "'a list list \<Rightarrow> nat \<Rightarrow> nat \<Rightarrow> error + 'a" where
  "js_nth2 xss i j = bindE (js_nth xss i) (\<lambda>row. js_nth row j)"

text \<open>\<^verbatim>\<open>xss[i][j] = v\<close> on a matrix whose entry \<open>(i, j)\<close> exists.\<close>

definition set2 :: "'a list list \<Rightarrow> nat \<Rightarrow> nat \<Rightarrow> 'a \<Rightarrow> 'a list list" where
  "set2 xss i j v = xss[i := (xss ! i)[j := v]]"

text \<open>
  \<^verbatim>\<open>a % b\<close> on integers: the sign of the dividend, and \<^verbatim>\<open>NaN\<close> (\<open>None\<close>) for \<open>b = 0\<close>.
\<close>

definition js_rem :: "int \<Rightarrow> int \<Rightarrow> int option" where
  "js_rem a b = (if b = 0 then None else Some (sgn a * (\<bar>a\<bar> mod \<bar>b\<bar>)))"

section \<open>Keccak: the gadgets it calls\<close>

text \<open>
  Modelled from the spec: the module \<^verbatim>\<open>Gadgets\<close> (\<^verbatim>\<open>gadgets/gadgets.js\<close>) is not among the
  sources. The spec gives \<^verbatim>\<open>rotateLeft(word, bits)\<close>, \<^verbatim>\<open>and(word, word)\<close> and
  \<^verbatim>\<open>not(word, bitWidth, checked)\<close> as gate primitives on 64-bit words, the unchecked NOT
  being the subtraction from the all-ones word.
\<close>

definition Gadgets_rotate :: "int \<Rightarrow> nat \<Rightarrow> int" where
  "Gadgets_rotate word bits = (word * 2 ^ bits) mod 2 ^ 64 + word div 2 ^ (64 - bits)"

definition Gadgets_and :: "int \<Rightarrow> int \<Rightarrow> int \<Rightarrow> int" where
  "Gadgets_and a b len = a AND b"

definition Gadgets_not :: "int \<Rightarrow> int \<Rightarrow> int" where
  "Gadgets_not a len = Field_sub (2 ^ nat len - 1) a"

text \<open>
  \<^verbatim>\<open>Gadgets.xor\<close> is a parameter \<open>gx\<close> of the Keccak functions. The spec says that all their
  XORs use the recursive gadget at word width 64: \<open>Gadgets_xor\<close> is that gadget, the function
  \<open>xor\<close> above with its default nibble width.
\<close>

definition Gadgets_xor :: "int \<Rightarrow> int \<Rightarrow> int \<Rightarrow> int res" where
  "Gadgets_xor a b len = map_option (map_sum id fst) (xor a b len 4 [])"

text \<open>
  Modelled from the spec: the contract of the gadget, \<^verbatim>\<open>xor(a, b, length) \<rightarrow> out\<close> with
  \<open>out\<close> the bitwise XOR of \<open>a\<close> and \<open>b\<close>, failing for a length that is not positive or
  exceeds the field's bit width; the operands are checked to fit as \<open>xor\<close> checks them.
\<close>

definition Gadgets_xor_contract :: "int \<Rightarrow> int \<Rightarrow> int \<Rightarrow> int res" where
  "Gadgets_xor_contract a b len =
     Some (bindE (assert (len > 0)) (\<lambda>_.
           bindE (assert (len \<le> Field_sizeInBits)) (\<lambda>_.
           bindE (fitsInBits a len) (\<lambda>_.
           bindE (fitsInBits b len) (\<lambda>_.
           Inr (Field_new (a XOR b)))))))"

text \<open>
  Modelled from the spec: \<^verbatim>\<open>rangeCheck8\<close> (\<^verbatim>\<open>gadgets/range-check.js\<close>) checks that a byte
  is below 256.
\<close>

definition rangeCheck8 :: "int \<Rightarrow> error + unit" where
  "rangeCheck8 x = assert (0 \<le> x \<and> x < 256)"

section \<open>Keccak: functions on the state\<close>

type_synonym State = "int list list"

definition Field_from :: "int \<Rightarrow> int" where
  "Field_from x = Field_new x"

definition State_zeros :: State where
  "State_zeros = replicate KECCAK_DIM (replicate KECCAK_DIM (Field_from 0))"

text \<open>
  The loops of \<^verbatim>\<open>toWords\<close> and \<^verbatim>\<open>fromWords\<close> run \<open>j\<close> outside and \<open>i\<close> inside: the pairs
  \<open>(j, i)\<close> in \<open>List.product\<close> order, the pair \<open>(j, i)\<close> at position \<open>KECCAK_DIM * j + i\<close>.
  \<^verbatim>\<open>toWords\<close> writes \<^verbatim>\<open>words[KECCAK_DIM * j + i]\<close> in that order, which fills the array from
  left to right.
\<close>

definition State_toWords :: "State \<Rightarrow> error + int list" where
  "State_toWords state =
     mapE (\<lambda>(j, i). js_nth2 state i j) (List.product [0..<KECCAK_DIM] [0..<KECCAK_DIM])"

definition State_fromWords :: "int list \<Rightarrow> error + State" where
  "State_fromWords words =
     foldE (\<lambda>state (j, i). bindE (js_nth words (KECCAK_DIM * j + i)) (\<lambda>w. Inr (set2 state i j w)))
       State_zeros (List.product [0..<KECCAK_DIM] [0..<KECCAK_DIM])"

definition State_xor :: "(int \<Rightarrow> int \<Rightarrow> int \<Rightarrow> int res) \<Rightarrow> State \<Rightarrow> State \<Rightarrow> State res" where
  "State_xor gx a b =
     bindR (Some (assert (length a = KECCAK_DIM \<and> length (a ! 0) = KECCAK_DIM))) (\<lambda>_.
     bindR (Some (assert (length b = KECCAK_DIM \<and> length (b ! 0) = KECCAK_DIM))) (\<lambda>_.
     mapR (\<lambda>(row, i).
       mapR (\<lambda>(value, j). bindR (Some (js_nth2 b i j)) (\<lambda>bij. gx value bij 64))
         (zip row [0..<length row]))
       (zip a [0..<length a])))"

section \<open>Keccak: padding\<close>

definition bytesToPad :: "int \<Rightarrow> int \<Rightarrow> int option" where
  "bytesToPad rate len = map_option (\<lambda>r. rate - r) (js_rem len rate)"

text \<open>
  \<^verbatim>\<open>Array(extraBytes)\<close> raises a RangeError unless \<open>extraBytes\<close> is an array length, an
  integer from 0 to \<open>2 ^ 32 - 1\<close>: for a negative length, for \<^verbatim>\<open>NaN\<close> and for a length of
  \<open>2 ^ 32\<close> or more. For \<open>extraBytes = 0\<close> the write \<^verbatim>\<open>pad[0] = first\<close> extends the empty
  array and \<^verbatim>\<open>pad[-1].add(last)\<close> raises a TypeError; otherwise both writes are in range.
\<close>

definition pad :: "int list \<Rightarrow> int \<Rightarrow> bool \<Rightarrow> error + int list" where
  "pad message rate nist =
     (case bytesToPad rate (int (length message)) of
        None \<Rightarrow> Inl RangeError
      | Some extraBytes \<Rightarrow>
          let first = (if nist then 0x06 else 0x01);
              last = 0x80
          in if extraBytes < 0 \<or> extraBytes > 2 ^ 32 - 1 then Inl RangeError
             else if extraBytes = 0 then Inl TypeError
             else
               let pad0 = replicate (nat extraBytes) (Field_from 0);
                   pad1 = pad0[0 := Field_from first];
                   pad2 = pad1[nat (extraBytes - 1) := Field_add (pad1 ! nat (extraBytes - 1)) last]
               in Inr (message @ pad2))"

section \<open>Keccak: the round transformation\<close>

definition theta :: "(int \<Rightarrow> int \<Rightarrow> int \<Rightarrow> int res) \<Rightarrow> State \<Rightarrow> State res" where
  "theta gx state =
     (let stateA = state in
      bindR (mapR (\<lambda>row. reduceR (\<lambda>acc value. gx acc value KECCAK_WORD) row) stateA) (\<lambda>stateC.
      bindR (mapR (\<lambda>x.
               bindR (Some (js_nth stateC ((x + KECCAK_DIM - 1) mod KECCAK_DIM))) (\<lambda>c1.
               bindR (Some (js_nth stateC ((x + 1) mod KECCAK_DIM))) (\<lambda>c2.
               gx c1 (Gadgets_rotate c2 1) KECCAK_WORD)))
             [0..<KECCAK_DIM]) (\<lambda>stateD.
      mapR (\<lambda>(row, index).
        mapR (\<lambda>elem. bindR (Some (js_nth stateD index)) (\<lambda>d. gx elem d KECCAK_WORD)) row)
        (zip stateA [0..<length stateA]))))"

definition piRho :: "State \<Rightarrow> error + State" where
  "piRho state =
     (let stateE = state;
          stateB = State_zeros
      in foldE (\<lambda>stateB (i, j).
           bindE (js_nth2 stateE i j) (\<lambda>e.
           bindE (js_nth2 ROT_TABLE i j) (\<lambda>r.
           Inr (set2 stateB j ((2 * i + 3 * j) mod KECCAK_DIM) (Gadgets_rotate e r)))))
         stateB (List.product [0..<KECCAK_DIM] [0..<KECCAK_DIM]))"

definition chi :: "(int \<Rightarrow> int \<Rightarrow> int \<Rightarrow> int res) \<Rightarrow> State \<Rightarrow> State res" where
  "chi gx state =
     (let stateB = state;
          stateF = State_zeros
      in foldR (\<lambda>stateF (i, j).
           bindR (Some (js_nth2 stateB i j)) (\<lambda>b0.
           bindR (Some (js_nth2 stateB ((i + 1) mod KECCAK_DIM) j)) (\<lambda>b1.
           bindR (Some (js_nth2 stateB ((i + 2) mod KECCAK_DIM) j)) (\<lambda>b2.
           bindR (gx b0 (Gadgets_and (Gadgets_not b1 KECCAK_WORD) b2 KECCAK_WORD) KECCAK_WORD) (\<lambda>f.
           Some (Inr (set2 stateF i j f)))))))
         stateF (List.product [0..<KECCAK_DIM] [0..<KECCAK_DIM]))"

definition iota :: "(int \<Rightarrow> int \<Rightarrow> int \<Rightarrow> int res) \<Rightarrow> State \<Rightarrow> int \<Rightarrow> State res" where
  "iota gx state rc =
     (let stateG = state in
      bindR (Some (js_nth2 stateG 0 0)) (\<lambda>g00.
      bindR (gx g00 (Field_from rc) KECCAK_WORD) (\<lambda>g.
      Some (Inr (set2 stateG 0 0 g)))))"

definition round' :: "(int \<Rightarrow> int \<Rightarrow> int \<Rightarrow> int res) \<Rightarrow> State \<Rightarrow> int \<Rightarrow> State res" where
  "round' gx state rc =
     (let stateA = state in
      bindR (theta gx stateA) (\<lambda>stateE.
      bindR (Some (piRho stateE)) (\<lambda>stateB.
      bindR (chi gx stateB) (\<lambda>stateF.
      iota gx stateF rc))))"

definition permutation :: "(int \<Rightarrow> int \<Rightarrow> int \<Rightarrow> int res) \<Rightarrow> State \<Rightarrow> int list \<Rightarrow> State res" where
  "permutation gx state rc = foldR (\<lambda>acc value. round' gx acc value) state rc"

section \<open>Keccak: the sponge\<close>

text \<open>
  The loop of \<^verbatim>\<open>absorb\<close>: \<^verbatim>\<open>for (let idx = 0; idx < paddedMessage.length; idx += rate)\<close>.
  Before it, \<^verbatim>\<open>Array(capacity)\<close> raises a RangeError unless \<open>capacity\<close> is an array length.
\<close>

partial_function (option) absorb_loop ::
  "(int \<Rightarrow> int \<Rightarrow> int \<Rightarrow> int res) \<Rightarrow> int list \<Rightarrow> int list \<Rightarrow> int \<Rightarrow> int list \<Rightarrow> int \<Rightarrow> State
     \<Rightarrow> (error + State) option" where
  "absorb_loop gx paddedMessage zeros rate rc idx state =
     (if idx < int (length paddedMessage) then
        (let block = js_slice paddedMessage idx (idx + rate);
             paddedBlock = block @ zeros
         in case bindR (Some (State_fromWords paddedBlock)) (\<lambda>blockState.
                 bindR (State_xor gx state blockState) (\<lambda>stateXor.
                 permutation gx stateXor rc)) of
              None \<Rightarrow> None
            | Some (Inl e) \<Rightarrow> Some (Inl e)
            | Some (Inr state') \<Rightarrow> absorb_loop gx paddedMessage zeros rate rc (idx + rate) state')
      else Some (Inr state))"

declare absorb_loop.simps [code]

definition absorb ::
  "(int \<Rightarrow> int \<Rightarrow> int \<Rightarrow> int res) \<Rightarrow> int list \<Rightarrow> int \<Rightarrow> int \<Rightarrow> int list \<Rightarrow> State res" where
  "absorb gx paddedMessage capacity rate rc =
     bindR (Some (assert (rate + capacity = KECCAK_STATE_LENGTH_WORDS))) (\<lambda>_.
     bindR (Some (assert (js_rem (int (length paddedMessage)) rate = Some 0))) (\<lambda>_.
     let state = State_zeros in
     if capacity < 0 \<or> capacity > 2 ^ 32 - 1 then Some (Inl RangeError)
     else
       let zeros = replicate (nat capacity) (Field_from 0)
       in absorb_loop gx paddedMessage zeros rate rc 0 state))"

text \<open>
  \<^verbatim>\<open>Math.floor(length / rate) + 1\<close>: for \<open>rate = 0\<close> the quotient is infinite or \<^verbatim>\<open>NaN\<close> and the
  assertion fails; otherwise the floor of the quotient is \<open>div\<close>.
\<close>

definition squeeze :: "State \<Rightarrow> int \<Rightarrow> int \<Rightarrow> error + int list" where
  "squeeze state len rate =
     bindE (assert (rate \<noteq> 0 \<and> len div rate + 1 = 1)) (\<lambda>_.
     bindE (State_toWords state) (\<lambda>words.
     let hashed = js_slice words 0 len
     in Inr hashed))"

definition sponge ::
  "(int \<Rightarrow> int \<Rightarrow> int \<Rightarrow> int res) \<Rightarrow> int list \<Rightarrow> int \<Rightarrow> int \<Rightarrow> int \<Rightarrow> int list res" where
  "sponge gx paddedMessage len capacity rate =
     bindR (Some (assert (js_rem (int (length paddedMessage)) rate = Some 0))) (\<lambda>_.
     bindR (absorb gx paddedMessage capacity rate ROUND_CONSTANTS) (\<lambda>state.
     Some (squeeze state len rate)))"

section \<open>Keccak: words and bytes\<close>

text \<open>
  \<^verbatim>\<open>wordBytes.reduce((acc, value, idx) => acc.add(value.mul(1n << BigInt(8 * idx))), Field.from(0))\<close>
\<close>

definition bytesToWord :: "int list \<Rightarrow> int" where
  "bytesToWord wordBytes =
     foldl (\<lambda>acc (value, idx). Field_add acc (Field_mul value (2 ^ (8 * idx))))
       (Field_from 0) (zip wordBytes [0..<length wordBytes])"

definition wordToBytes :: "int \<Rightarrow> error + int list" where
  "wordToBytes word =
     (let w = word;
          bytes = map (\<lambda>k. drop_bit (8 * k) w AND 0xff) [0..<nat BYTES_PER_WORD]
      in bindE (mapE rangeCheck8 bytes) (\<lambda>_.
         bindE (Field_assertEquals (bytesToWord bytes) word) (\<lambda>_.
         Inr bytes)))"

definition chunk :: "'a list \<Rightarrow> int \<Rightarrow> error + 'a list list" where
  "chunk array sz =
     bindE (assert (js_rem (int (length array)) sz = Some 0)) (\<lambda>_.
     Inr (map (\<lambda>i. js_slice array (sz * int i) (sz * (int i + 1)))
            [0..<nat (int (length array) div sz)]))"

definition bytesToWords :: "int list \<Rightarrow> error + int list" where
  "bytesToWords bytes = bindE (chunk bytes BYTES_PER_WORD) (\<lambda>chunks. Inr (map bytesToWord chunks))"

definition wordsToBytes :: "int list \<Rightarrow> error + int list" where
  "wordsToBytes words = bindE (mapE wordToBytes words) (\<lambda>bs. Inr (concat bs))"

section \<open>Keccak: the hash functions\<close>

definition hash ::
  "(int \<Rightarrow> int \<Rightarrow> int \<Rightarrow> int res) \<Rightarrow> int list \<Rightarrow> int \<Rightarrow> int \<Rightarrow> bool \<Rightarrow> int list res" where
  "hash gx message len capacity nistVersion =
     bindR (Some (assert (capacity > 0))) (\<lambda>_.
     bindR (Some (assert (capacity < KECCAK_STATE_LENGTH_BYTES))) (\<lambda>_.
     bindR (Some (assert (len > 0))) (\<lambda>_.
     bindR (Some (assert (js_rem capacity BYTES_PER_WORD = Some 0))) (\<lambda>_.
     let capacity' = capacity div BYTES_PER_WORD in
     bindR (Some (assert (js_rem len BYTES_PER_WORD = Some 0))) (\<lambda>_.
     let len' = len div BYTES_PER_WORD;
         rate = KECCAK_STATE_LENGTH_WORDS - capacity'
     in
     bindR (Some (pad message (rate * BYTES_PER_WORD) nistVersion)) (\<lambda>paddedBytes.
     bindR (Some (bytesToWords paddedBytes)) (\<lambda>padded.
     bindR (sponge gx padded len' capacity' rate) (\<lambda>hash.
     Some (wordsToBytes hash)))))))))"

definition nistSha3 :: "(int \<Rightarrow> int \<Rightarrow> int \<Rightarrow> int res) \<Rightarrow> int \<Rightarrow> int list \<Rightarrow> int list res" where
  "nistSha3 gx len message = hash gx message (len div 8) (len div 4) True"

definition preNist :: "(int \<Rightarrow> int \<Rightarrow> int \<Rightarrow> int res) \<Rightarrow> int \<Rightarrow> int list \<Rightarrow> int list res" where
  "preNist gx len message = hash gx message (len div 8) (len div 4) False"

definition ethereum :: "(int \<Rightarrow> int \<Rightarrow> int \<Rightarrow> int res) \<Rightarrow> int list \<Rightarrow> int list res" where
  "ethereum gx message = preNist gx 256 message"

text \<open>The lower-case hexadecimal encoding of a sequence of bytes, two digits each.\<close>

definition hexDigit :: "int \<Rightarrow> char" where
  "hexDigit d = ''0123456789abcdef'' ! nat d"

definition toHex :: "int list \<Rightarrow> string" where
  "toHex bytes = concat (map (\<lambda>b. [hexDigit (b div 16), hexDigit (b mod 16)]) bytes)"

section \<open>Values used in the proofs\<close>

text \<open>The little-endian value of a list of bytes.\<close>

fun le_sum :: "int list \<Rightarrow> int" where
  "le_sum [] = 0"
| "le_sum (b # bs) = b + 256 * le_sum bs"

text \<open>
  The empty message: its single padded block as 17 words, that block as a state, the state
  after 6, 12, 18 and 24 rounds of the permutation, and the Keccak-256 digest.
\<close>

definition empty_block :: "int list" where
  "empty_block = 1 # replicate 15 0 @ [2 ^ 63]"

definition empty_block_state :: State where
  "empty_block_state =
     [[1, 0, 0, 0, 0],
      [0, 0, 0, 9223372036854775808, 0],
      [0, 0, 0, 0, 0],
      [0, 0, 0, 0, 0],
      [0, 0, 0, 0, 0]]"

definition keccak_state_6 :: State where
  "keccak_state_6 =
     [[248066060412482913, 13355132533173292400, 13287309445471910499, 4278624213941474887, 9163772564863624264],
      [10809642231442205384, 16887410369553470650, 9168388512907289048, 14275455272196532991, 8489753604216688595],
      [5504895099598155415, 1390404604944908871, 10117223767413104261, 18250878328984007816, 816201186782976613],
      [2584332703152910123, 10467819199160078225, 15763460986669702239, 4482727192120861170, 1144184611068540487],
      [10449879252273190592, 12586248386544345989, 10756186891316440689, 9721683024389909677, 4128866423754115227]]"

definition keccak_state_12 :: State where
  "keccak_state_12 =
     [[16291156846118844451, 5032647943730211172, 10482449059741954494, 15115158931448373871, 8744534987003128554],
      [9692757143822035377, 240223639921337555, 13992079101437996990, 12735725188152392398, 11356875620725102920],
      [17748466164917623592, 3573006762761062315, 2435977504749834253, 7627438592320754813, 8928226865784257667],
      [18297723408675364712, 4418081664467045005, 10982271880190543118, 272652177933322935, 1524680525473545806],
      [5768111022144358297, 14050874540553342331, 11974228964236697225, 14245570792134504674, 2896276078172484414]]"

definition keccak_state_18 :: State where
  "keccak_state_18 =
     [[534296193886098135, 5716772798672216727, 4383158246966191391, 18367201066277418680, 4594662070598184093],
      [3695287213502380591, 2583007236467463893, 18315691205404178545, 6748360514621293390, 8622633690173154066],
      [11532049842336470888, 10427970853733301948, 18043931791961935518, 9837915013220625665, 12904333489760771204],
      [17974523857070849737, 700439106234402195, 16287759594864535142, 12422998273549796530, 385777527094370260],
      [12954850201481240735, 7192762512095310632, 15352249056180256782, 12621865645966804366, 6037929239432104378]]"

definition keccak_state_24 :: State where
  "keccak_state_24 =
     [[4333579421379646149, 14671339323370021561, 4391692840257016808, 16970298442240338249, 16062291397582171322],
      [13836122230913597074, 2243375101132795228, 4309499098775122448, 1971761234120675839, 1601982631079003425],
      [4262519377828905189, 9371364203318886753, 13438072403645551266, 450719451514497906, 7734681229251997073],
      [8116759062988257915, 9347994793612953298, 18018124564071650747, 18340686150147091359, 13256946727218518206],
      [8406387447366859581, 12814238161780307547, 4323130096954625545, 11254645818134300982, 11816912122432958423]]"

definition empty_digest :: "int list" where
  "empty_digest =
     [197, 210, 70, 1, 134, 247, 35, 60,
      146, 126, 125, 178, 220, 199, 3, 192,
      229, 0, 182, 83, 202, 130, 39, 59,
      123, 250, 216, 4, 93, 133, 164, 112]"

section \<open>Facts about the field\<close>

lemma Field_ORDER_odd: "odd Field_ORDER"
  by (simp add: Field_ORDER_def)

lemma Field_ORDER_lower: "2 ^ 254 < Field_ORDER"
  by (simp add: Field_ORDER_def)

lemma Field_ORDER_upper: "Field_ORDER < 2 ^ 255"
  by (simp add: Field_ORDER_def)

lemma Field_ORDER_pos: "0 < Field_ORDER"
  by (simp add: Field_ORDER_def)

lemma Field_ORDER_gt1: "1 < Field_ORDER"
  by (simp add: Field_ORDER_def)

lemma inverse_loop_inv:
  assumes "inverse_loop a b x u = (g, r)" "0 \<le> a" "0 \<le> b"
    and "(x * a0) mod p = b mod p" "(u * a0) mod p = a mod p"
  shows "g = gcd a b \<and> (r * a0) mod p = g mod p"
  using assms
proof (induction a b x u rule: inverse_loop.induct)
  case (1 a b x u)
  show ?case
  proof (cases "a \<le> 0")
    case True
    with "1.prems" show ?thesis by (simp add: inverse_loop.simps[of a])
  next
    case False
    then have pos: "0 < a" by simp
    have rec: "inverse_loop (b mod a) a u (x - u * (b div a)) = (g, r)"
      using "1.prems"(1) False by (simp add: inverse_loop.simps[of a])
    have "((x - u * (b div a)) * a0) mod p = (x * a0 - (u * a0) * (b div a)) mod p"
      by (simp add: algebra_simps)
    also have "\<dots> = (b - a * (b div a)) mod p"
      by (metis "1.prems"(4) "1.prems"(5) mod_diff_cong mod_mult_cong mult.commute)
    also have "b - a * (b div a) = b mod a"
      by (simp add: minus_mult_div_eq_mod)
    finally have inv: "((x - u * (b div a)) * a0) mod p = (b mod a) mod p" .
    have "g = gcd (b mod a) a \<and> (r * a0) mod p = g mod p"
      using "1.IH"[OF False rec _ _ "1.prems"(5) inv] pos by simp
    then show ?thesis
      by (simp add: gcd.commute gcd_red_int[symmetric])
  qed
qed

lemma Field_inv_correct:
  assumes "coprime y Field_ORDER"
  shows "(Field_inv y * y) mod Field_ORDER = 1"
proof -
  obtain g r where gr: "inverse_loop (y mod Field_ORDER) Field_ORDER 0 1 = (g, r)"
    by (cases "inverse_loop (y mod Field_ORDER) Field_ORDER 0 1")
  have nonneg: "0 \<le> y mod Field_ORDER" "0 \<le> Field_ORDER"
    using Field_ORDER_pos by simp_all
  have "g = gcd (y mod Field_ORDER) Field_ORDER \<and> (r * y) mod Field_ORDER = g mod Field_ORDER"
    by (rule inverse_loop_inv[OF gr nonneg]) simp_all
  moreover have "coprime (y mod Field_ORDER) Field_ORDER"
    using assms Field_ORDER_pos by (simp add: coprime_mod_left_iff)
  then have "gcd (y mod Field_ORDER) Field_ORDER = 1"
    by (simp only: coprime_iff_gcd_eq_1)
  moreover have "(1::int) mod Field_ORDER = 1"
    using Field_ORDER_gt1 by (simp only: mod_pos_pos_trivial zero_le_one)
  ultimately have "(r * y) mod Field_ORDER = 1"
    by simp
  then show ?thesis
    by (simp add: Field_inv_def gr mod_mult_left_eq)
qed

lemma coprime_pow2_Field_ORDER: "coprime (2 ^ n) Field_ORDER"
  using Field_ORDER_odd by (simp add: coprime_power_left_iff)

lemma Field_div_mul:
  assumes "coprime d Field_ORDER" "0 \<le> q" "q < Field_ORDER"
  shows "Field_div ((d * q) mod Field_ORDER) (d mod Field_ORDER) = Inr q"
proof -
  let ?p = Field_ORDER
  let ?i = "Field_inv (d mod ?p)"
  have cop: "coprime (d mod ?p) ?p"
    using assms(1) Field_ORDER_pos by (simp add: coprime_mod_left_iff)
  have nz: "d mod ?p \<noteq> 0"
  proof
    assume "d mod ?p = 0"
    with cop have "coprime 0 ?p" by simp
    then have "is_unit ?p" by (simp only: coprime_0_left_iff)
    then have "\<bar>?p\<bar> = 1" by simp
    then show False using Field_ORDER_gt1 by linarith
  qed
  have "(?i * (d mod ?p)) mod ?p = 1"
    by (rule Field_inv_correct[OF cop])
  then have inv: "(?i * d) mod ?p = 1"
    by (simp only: mod_mult_right_eq)
  have "((d * q) mod ?p * ?i) mod ?p = ((d * q) * ?i) mod ?p"
    by (simp only: mod_mult_left_eq)
  also have "(d * q) * ?i = q * (?i * d)"
    by (simp only: mult_ac)
  also have "(q * (?i * d)) mod ?p = (q * ((?i * d) mod ?p)) mod ?p"
    by (simp only: mod_mult_right_eq)
  also have "\<dots> = q"
    using assms(2,3) by (simp only: inv mult_1_right mod_pos_pos_trivial)
  finally have "Field_mul ((d * q) mod ?p) ?i = q"
    by (simp only: Field_mul_def)
  then show ?thesis
    using nz by (simp only: Field_div_def mod_mod_trivial if_False)
qed


lemma js_slice_upt:
  assumes "0 \<le> s" "s \<le> e" "e \<le> int n"
  shows "js_slice (map f [0..<n]) s e = map f [nat s..<nat e]"
proof -
  have "min s (int n) = s" "min e (int n) = e"
    using assms by simp_all
  then have "js_slice (map f [0..<n]) s e
             = take (nat (e - s)) (drop (nat s) (map f [0..<n]))"
    using assms by (simp add: js_slice_def Let_def)
  also have "\<dots> = map f (take (nat (e - s)) (drop (nat s) [0..<n]))"
    by (simp only: take_map drop_map)
  also have "take (nat (e - s)) (drop (nat s) [0..<n]) = [nat s..<nat e]"
    using assms by (simp add: drop_upt take_upt nat_diff_distrib)
  finally show ?thesis .
qed

lemma horner_sum_bit_range:
  "horner_sum of_bool 2 (map (bit (x::int)) [s..<s + n]) = take_bit n (drop_bit s x)"
proof -
  have "map (bit x) [s..<s + n] = map (bit (drop_bit s x)) [0..<n]"
    by (simp add: bit_drop_bit_eq map_add_upt[symmetric] comp_def add.commute)
  then show ?thesis
    by (simp add: horner_sum_bit_eq_take_bit)
qed

lemma ofBits_value:
  assumes "0 \<le> s" "s < e" "e \<le> 255" "e - s \<le> 254"
  shows "ofBits f s e = Inr (take_bit (nat (e - s)) (drop_bit (nat s) f))"
proof -
  let ?v = "take_bit (nat (e - s)) (drop_bit (nat s) f)"
  have len: "length (Field_toBits f) = 255"
    by (simp add: Field_toBits_def Field_sizeInBits_def)
  have "js_slice (Field_toBits f) s e = map (bit f) [nat s..<nat e]"
    using assms unfolding Field_toBits_def Field_sizeInBits_def
    by (intro js_slice_upt) simp_all
  also have "nat e = nat s + nat (e - s)"
    using assms by simp
  finally have slice: "js_slice (Field_toBits f) s e = map (bit f) [nat s..<nat s + nat (e - s)]" .
  have "?v < (2::int) ^ nat (e - s)"
    by simp
  also have "\<dots> \<le> 2 ^ 254"
    using assms by (intro power_increasing) simp_all
  finally have "?v < Field_ORDER"
    using Field_ORDER_lower by (rule less_trans)
  then have new: "Field_new ?v = ?v"
    by (simp add: Field_new_def)
  have "fieldBitsToFieldLE f s e = Inr (Field_fromBits (js_slice (Field_toBits f) s e))"
    using assms by (simp add: fieldBitsToFieldLE_def Let_def len)
  also have "Field_fromBits (js_slice (Field_toBits f) s e) = ?v"
    by (simp only: slice Field_fromBits_def horner_sum_bit_range new)
  finally show ?thesis
    using assms by (simp add: ofBits_def)
qed

lemma nibbles_value:
  assumes "0 < w" "4 * w \<le> 255"
  shows "nibbles f w = Inr (take_bit (nat w) f, take_bit (nat w) (drop_bit (nat w) f),
           take_bit (nat w) (drop_bit (2 * nat w) f), take_bit (nat w) (drop_bit (3 * nat w) f))"
proof -
  have n2: "nat (w + w) = 2 * nat w" and n3: "nat (w + w + w) = 3 * nat w"
    using assms by simp_all
  have 0: "ofBits f 0 w = Inr (take_bit (nat w) f)"
    using assms ofBits_value[of 0 w f] by simp
  have 1: "ofBits f w (w + w) = Inr (take_bit (nat w) (drop_bit (nat w) f))"
    using assms ofBits_value[of w "w + w" f] by simp
  have "ofBits f (w + w) (w + w + w)
        = Inr (take_bit (nat (w + w + w - (w + w))) (drop_bit (nat (w + w)) f))"
    using assms by (intro ofBits_value) simp_all
  then have 2: "ofBits f (w + w) (w + w + w) = Inr (take_bit (nat w) (drop_bit (2 * nat w) f))"
    by (simp only: n2 add_diff_cancel_left')
  have "ofBits f (w + w + w) (w + w + w + w)
        = Inr (take_bit (nat (w + w + w + w - (w + w + w))) (drop_bit (nat (w + w + w)) f))"
    using assms by (intro ofBits_value) simp_all
  then have 3: "ofBits f (w + w + w) (w + w + w + w)
                = Inr (take_bit (nat w) (drop_bit (3 * nat w) f))"
    by (simp only: n3 add_diff_cancel_left')
  show ?thesis
    by (simp only: nibbles_def Let_def bindE_def 0 1 2 3 sum.case)
qed

lemma pow_mod_Field:
  "Field_mul (Field_mul (Field_mul (Field_new (2 ^ n)) (Field_new (2 ^ n))) (Field_new (2 ^ n)))
      (Field_new (2 ^ n)) = (2 ^ (4 * n)) mod Field_ORDER"
proof -
  have "(2::int) ^ (4 * n) = 2 ^ n * 2 ^ n * 2 ^ n * 2 ^ n"
    by (simp add: power_add[symmetric])
  then show ?thesis
    by (simp add: Field_mul_def Field_new_def mod_mult_eq mod_mult_left_eq mod_mult_right_eq)
qed

lemma take_drop_decompose:
  "(c::int) = take_bit n c + take_bit n (drop_bit n c) * 2 ^ n
        + take_bit n (drop_bit (2 * n) c) * 2 ^ (2 * n)
        + take_bit n (drop_bit (3 * n) c) * 2 ^ (3 * n)
        + 2 ^ (4 * n) * drop_bit (4 * n) c"
proof -
  have step: "drop_bit k x = take_bit n (drop_bit k x) + 2 ^ n * drop_bit (k + n) x"
    for k and x :: int
    using bits_ident[of n "drop_bit k x"]
    by (simp add: push_bit_eq_mult add.commute mult.commute)
  have "c = take_bit n c + 2 ^ n * drop_bit n c"
    using step[of 0 c] by simp
  also have "drop_bit n c = take_bit n (drop_bit n c) + 2 ^ n * drop_bit (2 * n) c"
    using step[of n c] by (simp add: mult_2)
  also have "drop_bit (2 * n) c = take_bit n (drop_bit (2 * n) c) + 2 ^ n * drop_bit (3 * n) c"
    using step[of "2 * n" c] by (simp add: algebra_simps)
  also have "drop_bit (3 * n) c = take_bit n (drop_bit (3 * n) c) + 2 ^ n * drop_bit (4 * n) c"
    using step[of "3 * n" c] by (simp add: algebra_simps)
  finally have "c = take_bit n c + 2 ^ n * (take_bit n (drop_bit n c)
      + 2 ^ n * (take_bit n (drop_bit (2 * n) c)
      + 2 ^ n * (take_bit n (drop_bit (3 * n) c) + 2 ^ n * drop_bit (4 * n) c)))" .
  moreover have "(2::int) ^ (2 * n) = 2 ^ n * 2 ^ n" "(2::int) ^ (3 * n) = 2 ^ n * 2 ^ n * 2 ^ n"
    "(2::int) ^ (4 * n) = 2 ^ n * 2 ^ n * 2 ^ n * 2 ^ n"
    by (simp_all add: power_add[symmetric])
  ultimately show ?thesis
    by (simp only: algebra_simps)
qed


lemma asProverNextVar_value:
  assumes "0 \<le> c" "c < Field_ORDER"
  shows "asProverNextVar c (take_bit n c) (take_bit n (drop_bit n c))
           (take_bit n (drop_bit (2 * n) c)) (take_bit n (drop_bit (3 * n) c)) (int n)
         = Inr (drop_bit (4 * n) c)"
proof -
  let ?p = Field_ORDER
  let ?P = "Field_new (2 ^ n)"
  let ?n0 = "take_bit n c" and ?n1 = "take_bit n (drop_bit n c)"
  let ?n2 = "take_bit n (drop_bit (2 * n) c)" and ?n3 = "take_bit n (drop_bit (3 * n) c)"
  let ?q = "drop_bit (4 * n) c"
  have pw: "(2::int) ^ (2 * n) = 2 ^ n * 2 ^ n" "(2::int) ^ (3 * n) = 2 ^ (2 * n) * 2 ^ n"
    "(2::int) ^ (4 * n) = 2 ^ (3 * n) * 2 ^ n"
    by (simp_all add: power_add[symmetric])
  have P2: "Field_mul ?P ?P = (2 ^ (2 * n)) mod ?p"
    by (simp only: Field_mul_def Field_new_def mod_mult_eq pw(1))
  have P3: "Field_mul (Field_mul ?P ?P) ?P = (2 ^ (3 * n)) mod ?p"
    by (simp only: P2) (simp only: Field_mul_def Field_new_def mod_mult_eq pw(2))
  have P4: "Field_mul (Field_mul (Field_mul ?P ?P) ?P) ?P = (2 ^ (4 * n)) mod ?p"
    by (simp only: P3) (simp only: Field_mul_def Field_new_def mod_mult_eq pw(3))
  have "Field_sub (Field_sub (Field_sub (Field_sub c ?n0) (Field_mul ?n1 ?P))
           (Field_mul ?n2 (Field_mul ?P ?P))) (Field_mul ?n3 (Field_mul (Field_mul ?P ?P) ?P))
        = (c - ?n0 - ?n1 * 2 ^ n - ?n2 * 2 ^ (2 * n) - ?n3 * 2 ^ (3 * n)) mod ?p"
    unfolding P2 P3 by (simp add: Field_sub_def Field_mul_def Field_new_def mod_simps pw(2))
  also have "c - ?n0 - ?n1 * 2 ^ n - ?n2 * 2 ^ (2 * n) - ?n3 * 2 ^ (3 * n) = 2 ^ (4 * n) * ?q"
    using take_drop_decompose[of c n] by linarith
  finally have num: "Field_sub (Field_sub (Field_sub (Field_sub c ?n0) (Field_mul ?n1 ?P))
           (Field_mul ?n2 (Field_mul ?P ?P))) (Field_mul ?n3 (Field_mul (Field_mul ?P ?P) ?P))
        = (2 ^ (4 * n) * ?q) mod ?p" .
  have q: "0 \<le> ?q" "?q < ?p"
  proof -
    show "0 \<le> ?q" using assms(1) by simp
    have "c div 2 ^ (4 * n) \<le> c div 1"
      using assms(1) by (intro zdiv_mono2) simp_all
    then have "?q \<le> c"
      by (simp add: drop_bit_eq_div)
    then show "?q < ?p" using assms(2) by linarith
  qed
  show ?thesis
    unfolding asProverNextVar_def Let_def nat_int num P4
    by (rule Field_div_mul[OF coprime_pow2_Field_ORDER q])
qed

lemma xorRec_step_value:
  assumes "0 < w" "4 * w \<le> 255"
    and "0 \<le> a" "a < Field_ORDER" "0 \<le> b" "b < Field_ORDER" "0 \<le> c" "c < Field_ORDER"
  shows "xorRec_step a b c w cs
         = Inr (drop_bit (4 * nat w) a, drop_bit (4 * nat w) b, drop_bit (4 * nat w) c,
                cs @ [XorChain])"
proof -
  have w: "w = int (nat w)" using assms(1) by simp
  have nx: "asProverNextVar x (take_bit (nat w) x) (take_bit (nat w) (drop_bit (nat w) x))
           (take_bit (nat w) (drop_bit (2 * nat w) x)) (take_bit (nat w) (drop_bit (3 * nat w) x)) w
         = Inr (drop_bit (4 * nat w) x)" if "0 \<le> x" "x < Field_ORDER" for x
    using asProverNextVar_value[OF that, of "nat w"] w by simp
  show ?thesis
    by (simp add: xorRec_step_def nibbles_value[OF assms(1,2)] bindE_def Let_def
        nx[OF assms(3,4)] nx[OF assms(5,6)] nx[OF assms(7,8)])
qed

section \<open>Facts about the XOR chain\<close>

lemma drop_bit_Field_bound:
  assumes "0 \<le> (a::int)" "a < Field_ORDER"
  shows "0 \<le> drop_bit n a \<and> drop_bit n a < Field_ORDER"
proof -
  have "a div 2 ^ n \<le> a div 1"
    using assms(1) by (intro zdiv_mono2) simp_all
  then have "drop_bit n a \<le> a"
    by (simp add: drop_bit_eq_div)
  then show ?thesis
    using assms by simp
qed

lemma xorRec_chain:
  assumes "0 < w" "4 * w \<le> 255"
    and "0 \<le> a" "a < Field_ORDER" "0 \<le> b" "b < Field_ORDER" "0 \<le> c" "c < Field_ORDER"
    and "a < 2 ^ (4 * nat w * k)" "b < 2 ^ (4 * nat w * k)" "c < 2 ^ (4 * nat w * k)"
  shows "xorRec a b c (4 * w * int k) w cs = Some (Inr (cs @ replicate k XorChain @ [ZeroCheck]))"
  using assms(3-)
proof (induction k arbitrary: a b c cs)
  case 0
  then have "a = 0" "b = 0" "c = 0" by simp_all
  then show ?case
    by (simp add: xorRec.simps[of 0 0 0 0] bindE_def Field_assertEquals_def)
next
  case (Suc k)
  let ?n = "4 * nat w"
  have nz: "4 * w * int (Suc k) \<noteq> 0"
    using assms(1) by simp
  have step: "xorRec_step a b c w cs
      = Inr (drop_bit ?n a, drop_bit ?n b, drop_bit ?n c, cs @ [XorChain])"
    using Suc.prems assms(1,2) by (intro xorRec_step_value) simp_all
  have nxt: "4 * w * int (Suc k) - 4 * w = 4 * w * int k"
    by (simp add: algebra_simps)
  have small: "drop_bit ?n x < 2 ^ (?n * k)" if "0 \<le> x" "x < 2 ^ (?n * Suc k)" for x :: int
  proof -
    have "take_bit (?n * k + ?n) x = x"
      using that by (intro take_bit_int_eq_self) (simp_all add: algebra_simps)
    then have "drop_bit ?n x = take_bit (?n * k) (drop_bit ?n x)"
      by (simp only: take_bit_drop_bit)
    also have "\<dots> < 2 ^ (?n * k)"
      by (rule take_bit_int_less_exp)
    finally show ?thesis .
  qed
  have "xorRec a b c (4 * w * int (Suc k)) w cs
        = xorRec (drop_bit ?n a) (drop_bit ?n b) (drop_bit ?n c) (4 * w * int k) w (cs @ [XorChain])"
    using nz by (subst xorRec.simps) (simp only: step nxt if_False sum.case prod.case Let_def)
  also have "\<dots> = Some (Inr ((cs @ [XorChain]) @ replicate k XorChain @ [ZeroCheck]))"
    using Suc.prems drop_bit_Field_bound[of a ?n] drop_bit_Field_bound[of b ?n]
      drop_bit_Field_bound[of c ?n] small[of a] small[of b] small[of c]
    by (intro Suc.IH) simp_all
  finally show ?case
    by (simp add: replicate_app_Cons_same)
qed

lemma xorRec_returns_imp:
  assumes "xorRec a b c padLength w cs = Some r"
  shows "0 < w \<and> 4 * w \<le> 255 \<and> 0 \<le> a \<and> a < Field_ORDER \<and> 0 \<le> b \<and> b < Field_ORDER
           \<and> 0 \<le> c \<and> c < Field_ORDER \<longrightarrow> 0 \<le> padLength \<and> (4 * w) dvd padLength"
proof (rule xorRec.raw_induct[where P = "\<lambda>a b c padLength w cs r.
     0 < w \<and> 4 * w \<le> 255 \<and> 0 \<le> a \<and> a < Field_ORDER \<and> 0 \<le> b \<and> b < Field_ORDER
       \<and> 0 \<le> c \<and> c < Field_ORDER \<longrightarrow> 0 \<le> padLength \<and> (4 * w) dvd padLength", OF _ assms],
    goal_cases)
  case (1 rec a b c padLength w cs r)
  show ?case
  proof (intro impI)
    assume f: "0 < w \<and> 4 * w \<le> 255 \<and> 0 \<le> a \<and> a < Field_ORDER \<and> 0 \<le> b \<and> b < Field_ORDER
       \<and> 0 \<le> c \<and> c < Field_ORDER"
    show "0 \<le> padLength \<and> (4 * w) dvd padLength"
    proof (cases "padLength = 0")
      case True
      then show ?thesis by simp
    next
      case False
      let ?n = "4 * nat w"
      have step: "xorRec_step a b c w cs
          = Inr (drop_bit ?n a, drop_bit ?n b, drop_bit ?n c, cs @ [XorChain])"
        using f by (intro xorRec_step_value) simp_all
      have "rec (drop_bit ?n a) (drop_bit ?n b) (drop_bit ?n c) (padLength - 4 * w) w
              (cs @ [XorChain]) = Some r"
        using 1(2) False by (simp add: step Let_def)
      then have "0 < w \<and> 4 * w \<le> 255 \<and> 0 \<le> drop_bit ?n a \<and> drop_bit ?n a < Field_ORDER
           \<and> 0 \<le> drop_bit ?n b \<and> drop_bit ?n b < Field_ORDER
           \<and> 0 \<le> drop_bit ?n c \<and> drop_bit ?n c < Field_ORDER
           \<longrightarrow> 0 \<le> padLength - 4 * w \<and> (4 * w) dvd (padLength - 4 * w)"
        by (rule 1(1))
      then have "0 \<le> padLength - 4 * w \<and> (4 * w) dvd (padLength - 4 * w)"
        using f drop_bit_Field_bound[of a ?n] drop_bit_Field_bound[of b ?n]
          drop_bit_Field_bound[of c ?n]
        by blast
      then show ?thesis
        using f by (auto simp: dvd_diff_left_iff)
    qed
  qed
qed

lemma xorRec_diverges:
  assumes "0 < w" "4 * w \<le> 255" "\<not> (0 \<le> padLength \<and> (4 * w) dvd padLength)"
    and "0 \<le> a" "a < Field_ORDER" "0 \<le> b" "b < Field_ORDER" "0 \<le> c" "c < Field_ORDER"
  shows "xorRec a b c padLength w cs = None"
proof (cases "xorRec a b c padLength w cs")
  case None
  then show ?thesis .
next
  case (Some r)
  from xorRec_returns_imp[OF Some] assms show ?thesis by blast
qed

lemma xor_witness_value:
  assumes "0 \<le> a" "0 \<le> b" "a < 2 ^ nat len" "b < 2 ^ nat len" "len \<le> 255"
  shows "xor_witness a b len = Inr (Field_new (a XOR b))"
proof -
  have "map2 (\<lambda>b1 b2. \<not> (b1 = b2)) (Field_toBits a) (Field_toBits b)
        = map (bit (a XOR b)) [0..<255]"
    by (simp add: Field_toBits_def Field_sizeInBits_def zip_map_map map_zip_map
        zip_same_conv_map bit_xor_iff del: upt_Suc)
  then have "Field_fromBits (map2 (\<lambda>b1 b2. \<not> (b1 = b2)) (Field_toBits a) (Field_toBits b))
        = Field_new (take_bit 255 (a XOR b))"
    by (simp only: Field_fromBits_def horner_sum_bit_eq_take_bit)
  moreover have "(2::int) ^ nat len \<le> 2 ^ 255"
    using assms(5) by (intro power_increasing) simp_all
  then have "a < 2 ^ 255" "b < 2 ^ 255"
    using assms(3,4) by simp_all
  then have "take_bit 255 a = a" "take_bit 255 b = b"
    using assms(1,2) by (simp_all only: take_bit_int_eq_self)
  then have "take_bit 255 (a XOR b) = a XOR b"
    by (simp only: take_bit_xor)
  ultimately show ?thesis
    using assms by (simp add: xor_witness_def fitsInBits_def assert_def bindE_def Let_def)
qed

lemma xor_padLength_multiple:
  assumes "0 < w" "len mod (4 * w) \<noteq> 0"
  shows "xor_padLength len w = 4 * w * (len div (4 * w) + 1)"
proof -
  have "len = 4 * w * (len div (4 * w)) + len mod (4 * w)"
    by simp
  then have "len + 4 * w - len mod (4 * w) = 4 * w * (len div (4 * w)) + 4 * w"
    by linarith
  then show ?thesis
    using assms by (simp add: xor_padLength_def Let_def algebra_simps)
qed

lemma xor_checks:
  assumes "0 < w" "0 < len" "len \<le> 255" "0 \<le> a" "0 \<le> b" "a < 2 ^ nat len" "b < 2 ^ nat len"
  shows "bindE (assert (len > 0 \<and> w > 0)) (\<lambda>_.
         bindE (assert (len \<le> Field_sizeInBits)) (\<lambda>_.
         bindE (fitsInBits a len) (\<lambda>_.
         bindE (fitsInBits b len) (\<lambda>_.
         xor_witness a b len)))) = Inr (Field_new (a XOR b))"
  using assms xor_witness_value[of a b len]
  by (simp add: assert_def bindE_def fitsInBits_def Field_sizeInBits_def)

lemma xor_returns:
  assumes "0 < w" "4 * w \<le> 255" "0 < len" "len \<le> 255" "len mod (4 * w) \<noteq> 0"
    and "0 \<le> a" "0 \<le> b" "a < 2 ^ nat len" "b < 2 ^ nat len"
    and "a < Field_ORDER" "b < Field_ORDER" "a XOR b < Field_ORDER"
  shows "xor a b len w cs
         = Some (Inr (a XOR b, cs @ replicate (nat (len div (4 * w)) + 1) XorChain @ [ZeroCheck]))"
proof -
  let ?k = "nat (len div (4 * w)) + 1"
  have divnn: "0 \<le> len div (4 * w)"
    using assms(1,3) by (simp add: pos_imp_zdiv_nonneg_iff)
  have pad: "xor_padLength len w = 4 * w * int ?k"
    using xor_padLength_multiple[OF assms(1,5)] divnn by simp
  have xnn: "0 \<le> a XOR b"
    using assms(6,7) by simp
  then have out: "Field_new (a XOR b) = a XOR b"
    using assms(12) by (simp add: Field_new_def)
  have "len < 4 * w * (len div (4 * w) + 1)"
  proof -
    have "len mod (4 * w) < 4 * w" using assms(1) by simp
    moreover have "len = 4 * w * (len div (4 * w)) + len mod (4 * w)" by simp
    ultimately show ?thesis by (simp add: algebra_simps)
  qed
  then have "nat len \<le> 4 * nat w * ?k"
    using assms(1,3) divnn by (simp add: nat_le_iff nat_mult_distrib algebra_simps)
  then have le: "(2::int) ^ nat len \<le> 2 ^ (4 * nat w * ?k)"
    by (intro power_increasing) simp_all
  have xsmall: "a XOR b < 2 ^ nat len"
    using assms(6-9) by (simp add: XOR_upper)
  have big: "a < 2 ^ (4 * nat w * ?k)" "b < 2 ^ (4 * nat w * ?k)" "a XOR b < 2 ^ (4 * nat w * ?k)"
    using assms(8,9) xsmall le by linarith+
  have chain: "xorRec a b (a XOR b) (4 * w * int ?k) w cs
               = Some (Inr (cs @ replicate ?k XorChain @ [ZeroCheck]))"
    using assms(1,2,6,7,10,11,12) xnn big
    by (intro xorRec_chain)
  show ?thesis
    unfolding xor_def xor_checks[OF assms(1,3,4,6,7,8,9)] out
    by (simp only: sum.case Let_def pad chain option.case)
qed

lemma xor_diverges:
  assumes "0 < w" "4 * w \<le> 255" "0 < len" "len \<le> 255" "len mod (4 * w) = 0"
    and "0 \<le> a" "0 \<le> b" "a < 2 ^ nat len" "b < 2 ^ nat len"
    and "a < Field_ORDER" "b < Field_ORDER"
  shows "xor a b len w cs = None"
proof -
  have pad: "xor_padLength len w = w"
    using assms(5) by (simp add: xor_padLength_def)
  have "\<not> (4 * w) dvd w"
    using assms(1) by (auto dest!: zdvd_imp_le)
  then have chain: "xorRec a b (Field_new (a XOR b)) w w cs = None"
    using assms Field_ORDER_pos by (intro xorRec_diverges) (simp_all add: Field_new_def)
  show ?thesis
    unfolding xor_def xor_checks[OF assms(1,3,4,6,7,8,9)]
    by (simp only: sum.case Let_def pad chain option.case)
qed


lemma xor_witness_range:
  assumes "xor_witness a b len = Inr v"
  shows "0 \<le> v \<and> v < Field_ORDER"
proof -
  have "v = Field_fromBits (map2 (\<lambda>b1 b2. \<not> (b1 = b2)) (Field_toBits a) (Field_toBits b))"
    using assms by (auto simp: xor_witness_def bindE_def Let_def split: sum.splits)
  then show ?thesis
    using Field_ORDER_pos by (simp add: Field_fromBits_def Field_new_def)
qed

lemma xor_result_range:
  assumes "xor a b len w cs = Some (Inr (v, cs'))"
  shows "0 \<le> v \<and> v < Field_ORDER"
proof -
  have "xor_witness a b len = Inr v"
    using assms
    by (auto simp: xor_def bindE_def Let_def split: sum.splits option.splits)
  then show ?thesis by (rule xor_witness_range)
qed

section \<open>The claims about the XOR gadget\<close>

text \<open>
  C1, as amended. For every length \<open>len\<close> with \<open>0 < len \<le> 255\<close> that is not a multiple of 16
  (four times the default nibble width) and every pair of field elements \<open>a\<close>, \<open>b\<close> below
  \<open>2 ^ len\<close> whose bitwise XOR is itself below the field modulus, \<^verbatim>\<open>xor(a, b, len)\<close> returns
  the exact bitwise XOR of \<open>a\<close> and \<open>b\<close>, after one chain row for each group of 16 bits and one
  zero check. The XOR is below the modulus for every \<open>len \<le> 254\<close>.
\<close>

theorem xor_exact:
  assumes "0 < len" "len \<le> Field_sizeInBits" "len mod 16 \<noteq> 0"
    and "0 \<le> a" "a < Field_ORDER" "a < 2 ^ nat len"
    and "0 \<le> b" "b < Field_ORDER" "b < 2 ^ nat len"
    and "a XOR b < Field_ORDER"
  shows "xor a b len 4 cs
         = Some (Inr (a XOR b, cs @ replicate (nat (len div 16) + 1) XorChain @ [ZeroCheck]))"
  using xor_returns[of 4 len a b cs] assms by (simp add: Field_sizeInBits_def)

theorem xor_exact_witness:
  "(0::int) < 255 \<and> 255 \<le> Field_sizeInBits \<and> (255::int) mod 16 \<noteq> 0
   \<and> (0::int) \<le> 2 ^ 254 + 5 \<and> 2 ^ 254 + 5 < Field_ORDER \<and> (2 ^ 254 + 5 :: int) < 2 ^ nat 255
   \<and> (0::int) \<le> 3 \<and> 3 < Field_ORDER \<and> (3::int) < 2 ^ nat 255
   \<and> (2 ^ 254 + 5) XOR 3 < Field_ORDER
   \<and> xor (2 ^ 254 + 5) 3 255 4 [] = Some (Inr (2 ^ 254 + 6, replicate 16 XorChain @ [ZeroCheck]))"
  using xor_exact[of 255 "2 ^ 254 + 5" 3 "[]"]
  by (simp add: Field_sizeInBits_def Field_ORDER_def)

text \<open>
  C1 as stated fails twice. At length 255 the operands \<open>2 ^ 254\<close> and \<open>2 ^ 254 - 1\<close> are field
  elements that fit, and their XOR \<open>2 ^ 255 - 1\<close> is not a field element: whatever \<^verbatim>\<open>xor\<close>
  returns, it is not the exact XOR. At length 64, a multiple of 16, the call does not return.
\<close>

theorem xor_exact_counterexample:
  "(2 ^ 254 :: int) < Field_ORDER \<and> (2 ^ 254 :: int) < 2 ^ 255
   \<and> map_option (map_sum id fst) (xor (2 ^ 254) (2 ^ 254 - 1) 255 4 [])
       \<noteq> Some (Inr ((2 ^ 254) XOR (2 ^ 254 - 1)))
   \<and> xor 1 2 64 4 [] = None"
proof -
  have big: "\<not> ((2 ^ 254) XOR (2 ^ 254 - 1) :: int) < Field_ORDER"
    by (simp add: Field_ORDER_def)
  have "map_option (map_sum id fst) (xor (2 ^ 254) (2 ^ 254 - 1) 255 4 [])
       \<noteq> Some (Inr ((2 ^ 254) XOR (2 ^ 254 - 1)))"
  proof
    assume "map_option (map_sum id fst) (xor (2 ^ 254) (2 ^ 254 - 1) 255 4 [])
       = Some (Inr ((2 ^ 254) XOR (2 ^ 254 - 1)))"
    then obtain cs' where
      "xor (2 ^ 254) (2 ^ 254 - 1) 255 4 [] = Some (Inr ((2 ^ 254) XOR (2 ^ 254 - 1), cs'))"
      by (cases "xor (2 ^ 254) (2 ^ 254 - 1) 255 4 []") (auto simp: map_sum_def split: sum.splits)
    then have "((2 ^ 254) XOR (2 ^ 254 - 1) :: int) < Field_ORDER"
      using xor_result_range by blast
    with big show False ..
  qed
  moreover have "xor 1 2 64 4 [] = None"
    by (rule xor_diverges) (simp_all add: Field_ORDER_def)
  ultimately show ?thesis
    by (simp add: Field_ORDER_def)
qed

text \<open>
  C2, at its failing input. \<^verbatim>\<open>xor(0, 0, 16)\<close> with the default nibble width 4 satisfies the
  preconditions, and the call does not return: the pad length is 4, each step of \<^verbatim>\<open>xorRec\<close>
  subtracts 16, and the terminal step \<^verbatim>\<open>padLength == 0\<close> is never reached.
\<close>

theorem xor_chain_never_returns: "xor 0 0 16 4 [] = None"
  by (rule xor_diverges) (simp_all add: Field_ORDER_def)

text \<open>
  C3, at its failing input. For the length 16, an exact multiple of \<open>4 * 4\<close>, \<^verbatim>\<open>xor\<close> computes
  the pad length 4, which is neither a multiple of 16 nor at least the length; the smallest
  multiple of 16 that is at least 16 is 16. The same holds at the word width 64.
\<close>

theorem xor_padLength_at_multiple:
  "xor_padLength 16 4 = 4 \<and> \<not> (16 dvd xor_padLength 16 4) \<and> xor_padLength 16 4 < 16
   \<and> xor_padLength 64 4 = 4"
  by (simp add: xor_padLength_def)

section \<open>Facts about the result monads\<close>

lemma bindE_weak_cong: "m = m' \<Longrightarrow> bindE m f = bindE m' f"
  by simp

lemma bindR_weak_cong: "m = m' \<Longrightarrow> bindR m f = bindR m' f"
  by simp

lemma bindE_Inr: "bindE (Inr v) f = f v"
  by (simp add: bindE_def)

lemma bindE_Inl: "bindE (Inl e) f = Inl e"
  by (simp add: bindE_def)

lemma bindR_Inr: "bindR (Some (Inr v)) f = f v"
  by (simp add: bindR_def)

lemma bindR_Inl: "bindR (Some (Inl e)) f = Some (Inl e)"
  by (simp add: bindR_def)

lemma bindR_None: "bindR None f = None"
  by (simp add: bindR_def)

lemmas bind_simps = bindE_Inr bindE_Inl bindR_Inr bindR_Inl bindR_None

section \<open>Facts about the state and its words\<close>

lemma product_5_5:
  "List.product [0..<KECCAK_DIM] [0..<KECCAK_DIM] =
     [(0,0),(0,1),(0,2),(0,3),(0,4),
      (1,0),(1,1),(1,2),(1,3),(1,4),
      (2,0),(2,1),(2,2),(2,3),(2,4),
      (3,0),(3,1),(3,2),(3,3),(3,4),
      (4,0),(4,1),(4,2),(4,3),(4,4)]"
  by (simp add: KECCAK_DIM_def upt_rec)

lemma State_zeros_eq:
  "State_zeros = [[0,0,0,0,0],[0,0,0,0,0],[0,0,0,0,0],[0,0,0,0,0],[0,0,0,0,0]]"
  by (simp add: State_zeros_def KECCAK_DIM_def Field_from_def Field_new_def Field_ORDER_def
      numeral_eq_Suc)

lemma State_fromWords_25:
  assumes "length w = 25"
  shows "State_fromWords w =
     Inr [[w ! 0, w ! 5, w ! 10, w ! 15, w ! 20],
          [w ! 1, w ! 6, w ! 11, w ! 16, w ! 21],
          [w ! 2, w ! 7, w ! 12, w ! 17, w ! 22],
          [w ! 3, w ! 8, w ! 13, w ! 18, w ! 23],
          [w ! 4, w ! 9, w ! 14, w ! 19, w ! 24]]"
  unfolding State_fromWords_def product_5_5 State_zeros_eq
  using assms by (simp add: bindE_def js_nth_def set2_def KECCAK_DIM_def numeral_2_eq_2)

lemma State_toWords_5x5:
  "State_toWords [[a0, a1, a2, a3, a4], [b0, b1, b2, b3, b4], [c0, c1, c2, c3, c4],
                  [d0, d1, d2, d3, d4], [e0, e1, e2, e3, e4]]
   = Inr [a0, b0, c0, d0, e0, a1, b1, c1, d1, e1, a2, b2, c2, d2, e2,
          a3, b3, c3, d3, e3, a4, b4, c4, d4, e4]"
  unfolding State_toWords_def product_5_5
  by (simp add: bindE_def js_nth2_def js_nth_def)

lemma list_25:
  assumes "length (w :: 'a list) = 25"
  shows "w = [w ! 0, w ! 1, w ! 2, w ! 3, w ! 4, w ! 5, w ! 6, w ! 7, w ! 8, w ! 9,
              w ! 10, w ! 11, w ! 12, w ! 13, w ! 14, w ! 15, w ! 16, w ! 17, w ! 18, w ! 19,
              w ! 20, w ! 21, w ! 22, w ! 23, w ! 24]"
proof -
  have "map ((!) w) [0..<length w] = w"
    by (rule map_nth)
  then have "w = map ((!) w) [0..<25]"
    unfolding assms by (rule sym)
  also have "\<dots> = [w ! 0, w ! 1, w ! 2, w ! 3, w ! 4, w ! 5, w ! 6, w ! 7, w ! 8, w ! 9,
              w ! 10, w ! 11, w ! 12, w ! 13, w ! 14, w ! 15, w ! 16, w ! 17, w ! 18, w ! 19,
              w ! 20, w ! 21, w ! 22, w ! 23, w ! 24]"
    by (simp add: upt_rec eval_nat_numeral)
  finally show ?thesis .
qed

lemma js_slice_take:
  assumes "0 \<le> n"
  shows "js_slice xs 0 n = take (nat n) xs"
  using assms by (simp add: js_slice_def Let_def min_def)

lemma Gadgets_xor_contract_64:
  assumes "0 \<le> a" "a < 2 ^ 64" "0 \<le> b" "b < 2 ^ 64"
  shows "Gadgets_xor_contract a b 64 = Some (Inr (a XOR b))"
proof -
  have "a XOR b < 2 ^ 64"
    using assms by (intro XOR_upper)
  moreover have "(2::int) ^ 64 < Field_ORDER"
    by (simp add: Field_ORDER_def)
  ultimately have "a XOR b < Field_ORDER" by linarith
  moreover have "0 \<le> a XOR b" using assms by simp
  ultimately have "Field_new (a XOR b) = a XOR b"
    by (simp add: Field_new_def)
  then show ?thesis
    using assms
    by (simp add: Gadgets_xor_contract_def assert_def bindE_def fitsInBits_def Field_sizeInBits_def)
qed

lemma Gadgets_xor_64:
  assumes "0 \<le> a" "a < 2 ^ 64" "0 \<le> b" "b < 2 ^ 64"
  shows "Gadgets_xor a b 64 = None"
proof -
  have "(2::int) ^ 64 < Field_ORDER"
    by (simp add: Field_ORDER_def)
  then have "a < Field_ORDER" "b < Field_ORDER"
    using assms by linarith+
  then have "xor a b 64 4 [] = None"
    using assms by (intro xor_diverges) simp_all
  then show ?thesis
    by (simp add: Gadgets_xor_def)
qed

section \<open>Facts about padding\<close>

lemma bytesToPad_pos:
  assumes "0 < rate"
  shows "bytesToPad rate (int n) = Some (rate - int n mod rate)"
  using assms by (simp add: bytesToPad_def js_rem_def sgn_if)

lemma pad_pos:
  assumes "0 < rate" "rate - int (length m) mod rate \<le> 2 ^ 32 - 1"
  shows "pad m rate nist =
     Inr (m @ ((replicate (nat (rate - int (length m) mod rate)) 0)[0 := (if nist then 6 else 1)])
            [nat (rate - int (length m) mod rate - 1) :=
               Field_add (((replicate (nat (rate - int (length m) mod rate)) 0)[0 := (if nist then 6 else 1)])
                            ! nat (rate - int (length m) mod rate - 1)) 128])"
proof -
  have lt: "int (length m) mod rate < rate"
    using assms by simp
  have e: "\<not> (rate - int (length m) mod rate < 0 \<or> rate - int (length m) mod rate > 2 ^ 32 - 1)"
    "rate - int (length m) mod rate \<noteq> 0"
    using lt assms(2) by simp_all
  have f: "Field_from 0 = 0" "Field_from 6 = 6" "Field_from 1 = 1"
    by (simp_all add: Field_from_def Field_new_def Field_ORDER_def)
  show ?thesis
    unfolding pad_def bytesToPad_pos[OF assms(1)] option.case Let_def
    by (simp only: e if_False) (simp add: f)
qed

section \<open>Facts about words and bytes\<close>

lemma le_sum_bounds:
  assumes "\<forall>b\<in>set bs. 0 \<le> b \<and> b < 256"
  shows "0 \<le> le_sum bs \<and> le_sum bs < 256 ^ length bs"
  using assms
proof (induction bs)
  case Nil
  then show ?case by simp
next
  case (Cons b bs)
  then have IH: "0 \<le> le_sum bs" "le_sum bs + 1 \<le> 256 ^ length bs"
    and b: "0 \<le> b" "b < 256"
    by simp_all
  have "b + 256 * le_sum bs < 256 + 256 * le_sum bs"
    using b by simp
  also have "\<dots> = 256 * (le_sum bs + 1)"
    by simp
  also have "\<dots> \<le> 256 * 256 ^ length bs"
    using IH(2) by (intro mult_left_mono) simp_all
  finally show ?case
    using IH(1) b by simp
qed

lemma bytesToWord_fold:
  assumes "acc mod Field_ORDER = acc"
  shows "foldl (\<lambda>acc (value, idx). Field_add acc (Field_mul value (2 ^ (8 * idx)))) acc
           (zip xs [k..<k + length xs])
         = (acc + 2 ^ (8 * k) * le_sum xs) mod Field_ORDER"
  using assms
proof (induction xs arbitrary: acc k)
  case Nil
  then show ?case by simp
next
  case (Cons x xs)
  let ?acc = "Field_add acc (Field_mul x (2 ^ (8 * k)))"
  have up: "[k..<k + length (x # xs)] = k # [Suc k..<Suc k + length xs]"
    by (simp add: upt_conv_Cons del: upt_Suc)
  have m: "?acc mod Field_ORDER = ?acc"
    by (simp add: Field_add_def)
  have "foldl (\<lambda>acc (value, idx). Field_add acc (Field_mul value (2 ^ (8 * idx)))) acc
           (zip (x # xs) [k..<k + length (x # xs)])
        = foldl (\<lambda>acc (value, idx). Field_add acc (Field_mul value (2 ^ (8 * idx)))) ?acc
           (zip xs [Suc k..<Suc k + length xs])"
    unfolding up by simp
  also have "\<dots> = (?acc + 2 ^ (8 * Suc k) * le_sum xs) mod Field_ORDER"
    by (rule Cons.IH[OF m])
  also have "\<dots> = (acc + x * 2 ^ (8 * k) + 2 ^ (8 * Suc k) * le_sum xs) mod Field_ORDER"
    by (simp add: Field_add_def Field_mul_def mod_simps)
  also have "acc + x * 2 ^ (8 * k) + 2 ^ (8 * Suc k) * le_sum xs
             = acc + 2 ^ (8 * k) * le_sum (x # xs)"
    by (simp add: algebra_simps power_add)
  finally show ?case .
qed

lemma bytesToWord_le_sum:
  "bytesToWord xs = le_sum xs mod Field_ORDER"
  using bytesToWord_fold[of 0 xs 0]
  by (simp add: bytesToWord_def Field_from_def Field_new_def)

lemma bytesToWord_8:
  assumes "length c = 8" "\<forall>b\<in>set c. 0 \<le> b \<and> b < 256"
  shows "bytesToWord c = le_sum c"
proof -
  have "0 \<le> le_sum c" "le_sum c < 256 ^ 8"
    using le_sum_bounds[OF assms(2)] assms(1) by simp_all
  moreover have "(256::int) ^ 8 < Field_ORDER"
    by (simp add: Field_ORDER_def)
  ultimately show ?thesis
    by (simp add: bytesToWord_le_sum)
qed

lemma le_sum_bytes:
  assumes "\<forall>b\<in>set bs. 0 \<le> b \<and> b < 256"
  shows "map (\<lambda>k. drop_bit (8 * k) (le_sum bs) AND 0xff) [0..<length bs] = bs"
  using assms
proof (induction bs)
  case Nil
  then show ?case by simp
next
  case (Cons b bs)
  then have b: "0 \<le> b" "b < 256" by simp_all
  have mask: "x AND 0xff = x mod 256" for x :: int
    using take_bit_eq_mask[of 8 x] by (simp add: take_bit_eq_mod mask_eq_exp_minus_1)
  have d: "(b + 256 * r) div 256 = r" and m: "(b + 256 * r) mod 256 = b" for r
    using b by simp_all
  have shift: "drop_bit (8 + 8 * k) (b + 256 * r) = drop_bit (8 * k) r" for k r
  proof -
    have "drop_bit (8 + 8 * k) (b + 256 * r) = drop_bit (8 * k) (drop_bit 8 (b + 256 * r))"
      by (simp only: drop_bit_drop_bit add.commute)
    also have "drop_bit 8 (b + 256 * r) = r"
      using d[of r] by (simp add: drop_bit_eq_div)
    finally show ?thesis .
  qed
  have "[0..<length (b # bs)] = 0 # map Suc [0..<length bs]"
    by (simp add: upt_conv_Cons map_Suc_upt del: upt_Suc)
  then have "map (\<lambda>k. drop_bit (8 * k) (le_sum (b # bs)) AND 0xff) [0..<length (b # bs)]
        = (le_sum (b # bs) AND 0xff)
          # map (\<lambda>k. drop_bit (8 * Suc k) (le_sum (b # bs)) AND 0xff) [0..<length bs]"
    by (simp add: comp_def del: upt_Suc le_sum.simps)
  also have "le_sum (b # bs) AND 0xff = b"
    using m[of "le_sum bs"] by (simp add: mask)
  also have "map (\<lambda>k. drop_bit (8 * Suc k) (le_sum (b # bs)) AND 0xff) [0..<length bs] = bs"
    using Cons by (simp add: shift del: upt_Suc)
  finally show ?case .
qed

lemma mapE_all:
  assumes "\<forall>x\<in>set xs. f x = Inr (g x)"
  shows "mapE f xs = Inr (map g xs)"
  using assms by (induction xs) (simp_all add: bindE_def)

lemma wordToBytes_bytesToWord:
  assumes "length c = 8" "\<forall>b\<in>set c. 0 \<le> b \<and> b < 256"
  shows "wordToBytes (bytesToWord c) = Inr c"
proof -
  have w: "bytesToWord c = le_sum c"
    by (rule bytesToWord_8[OF assms])
  have bytes: "map (\<lambda>k. drop_bit (8 * k) (le_sum c) AND 0xff) [0..<nat BYTES_PER_WORD] = c"
    using le_sum_bytes[OF assms(2)] assms(1)
    by (simp add: BYTES_PER_WORD_def KECCAK_WORD_def KECCAK_ELL_def)
  have rc: "mapE rangeCheck8 c = Inr (map (\<lambda>_. ()) c)"
    using assms(2) by (intro mapE_all) (simp add: rangeCheck8_def assert_def)
  show ?thesis
    unfolding wordToBytes_def w Let_def bytes
    by (simp add: rc bindE_def w Field_assertEquals_def)
qed

lemma js_slice_in_range:
  assumes "0 \<le> s" "s \<le> e" "e \<le> int (length xs)"
  shows "js_slice xs s e = take (nat (e - s)) (drop (nat s) xs)"
proof -
  have "min s (int (length xs)) = s" "min e (int (length xs)) = e"
    using assms by simp_all
  then show ?thesis
    using assms by (simp add: js_slice_def Let_def)
qed

lemma concat_chunks:
  assumes "length xs = 8 * n"
  shows "concat (map (\<lambda>i. take 8 (drop (8 * i) xs)) [0..<n]) = xs"
  using assms
proof (induction n arbitrary: xs)
  case 0
  then show ?case by simp
next
  case (Suc n)
  have "[0..<Suc n] = 0 # map Suc [0..<n]"
    by (simp add: upt_conv_Cons map_Suc_upt del: upt_Suc)
  then have "concat (map (\<lambda>i. take 8 (drop (8 * i) xs)) [0..<Suc n])
        = take 8 xs @ concat (map (\<lambda>i. take 8 (drop (8 * i) (drop 8 xs))) [0..<n])"
    by (simp add: comp_def add.commute del: upt_Suc)
  also have "concat (map (\<lambda>i. take 8 (drop (8 * i) (drop 8 xs))) [0..<n]) = drop 8 xs"
    using Suc.prems by (intro Suc.IH) simp
  finally show ?case by simp
qed

lemma chunk_8:
  assumes "length bytes mod 8 = 0"
  shows "chunk bytes BYTES_PER_WORD
         = Inr (map (\<lambda>i. take 8 (drop (8 * i) bytes)) [0..<length bytes div 8])"
proof -
  have B: "BYTES_PER_WORD = 8"
    by (simp add: BYTES_PER_WORD_def KECCAK_WORD_def KECCAK_ELL_def)
  have "int (length bytes) mod 8 = int (length bytes mod 8)"
    by (simp add: zmod_int)
  then have rem: "js_rem (int (length bytes)) 8 = Some 0"
    using assms by (simp add: js_rem_def sgn_if)
  have n: "nat (int (length bytes) div 8) = length bytes div 8"
    by (simp add: zdiv_int[symmetric])
  have "js_slice bytes (8 * int i) (8 * (int i + 1)) = take 8 (drop (8 * i) bytes)"
    if "i < length bytes div 8" for i
  proof -
    have "8 * (i + 1) \<le> length bytes"
      using that assms by presburger
    then have "js_slice bytes (8 * int i) (8 * (int i + 1))
          = take (nat (8 * (int i + 1) - 8 * int i)) (drop (nat (8 * int i)) bytes)"
      by (intro js_slice_in_range) simp_all
    then show ?thesis
      by (simp add: nat_mult_distrib)
  qed
  then show ?thesis
    unfolding chunk_def B by (simp add: rem n assert_def bindE_def del: upt_Suc)
qed

section \<open>The hash of the empty message\<close>

lemma pad_empty_136:
  "pad [] 136 False = Inr (1 # replicate 134 0 @ [128])"
proof -
  have "(replicate 136 (0::int))[0 := 1] = 1 # replicate 135 0"
    by (simp add: eval_nat_numeral)
  moreover have "(1 # replicate 135 (0::int))[135 := 128] = 1 # replicate 134 0 @ [128]"
    by (simp add: eval_nat_numeral)
  moreover have "(1 # replicate 135 (0::int)) ! 135 = 0"
    by (simp add: eval_nat_numeral)
  ultimately show ?thesis
    by (simp add: pad_def bytesToPad_def js_rem_def Let_def Field_from_def Field_new_def
        Field_add_def Field_ORDER_def)
qed

lemma bytesToWords_empty_block:
  "bytesToWords (1 # replicate 134 0 @ [128]) = Inr empty_block"
  unfolding empty_block_def by code_simp

lemma State_fromWords_empty_block:
  "State_fromWords (empty_block @ replicate 8 0) = Inr empty_block_state"
  unfolding empty_block_def empty_block_state_def
  by (simp add: State_fromWords_25 eval_nat_numeral)

lemma foldR_append:
  "foldR f acc (xs @ ys) = bindR (foldR f acc xs) (\<lambda>acc'. foldR f acc' ys)"
  by (induction xs arbitrary: acc) (auto simp: bindR_def split: option.splits sum.splits)

lemma rounds_0_5:
  "foldR (\<lambda>acc value. round' Gadgets_xor_contract acc value) empty_block_state
     [1, 32898, 9223372036854808714,
      9223372039002292224, 32907, 2147483649]
   = Some (Inr keccak_state_6)"
  unfolding empty_block_state_def keccak_state_6_def
    round'_def theta_def piRho_def chi_def iota_def product_5_5 State_zeros_eq Let_def
  by (simp add: bind_simps js_nth2_def js_nth_def set2_def ROT_TABLE_def KECCAK_DIM_def
      KECCAK_WORD_def KECCAK_ELL_def Gadgets_rotate_def Gadgets_and_def Gadgets_not_def
      Field_sub_def Field_from_def Field_new_def Field_ORDER_def Gadgets_xor_contract_64 upt_rec
      cong: bindE_weak_cong bindR_weak_cong)

lemma rounds_6_11:
  "foldR (\<lambda>acc value. round' Gadgets_xor_contract acc value) keccak_state_6
     [9223372039002292353, 9223372036854808585, 138,
      136, 2147516425, 2147483658]
   = Some (Inr keccak_state_12)"
  unfolding keccak_state_6_def keccak_state_12_def
    round'_def theta_def piRho_def chi_def iota_def product_5_5 State_zeros_eq Let_def
  by (simp add: bind_simps js_nth2_def js_nth_def set2_def ROT_TABLE_def KECCAK_DIM_def
      KECCAK_WORD_def KECCAK_ELL_def Gadgets_rotate_def Gadgets_and_def Gadgets_not_def
      Field_sub_def Field_from_def Field_new_def Field_ORDER_def Gadgets_xor_contract_64 upt_rec
      cong: bindE_weak_cong bindR_weak_cong)

lemma rounds_12_17:
  "foldR (\<lambda>acc value. round' Gadgets_xor_contract acc value) keccak_state_12
     [2147516555, 9223372036854775947, 9223372036854808713,
      9223372036854808579, 9223372036854808578, 9223372036854775936]
   = Some (Inr keccak_state_18)"
  unfolding keccak_state_12_def keccak_state_18_def
    round'_def theta_def piRho_def chi_def iota_def product_5_5 State_zeros_eq Let_def
  by (simp add: bind_simps js_nth2_def js_nth_def set2_def ROT_TABLE_def KECCAK_DIM_def
      KECCAK_WORD_def KECCAK_ELL_def Gadgets_rotate_def Gadgets_and_def Gadgets_not_def
      Field_sub_def Field_from_def Field_new_def Field_ORDER_def Gadgets_xor_contract_64 upt_rec
      cong: bindE_weak_cong bindR_weak_cong)

lemma rounds_18_23:
  "foldR (\<lambda>acc value. round' Gadgets_xor_contract acc value) keccak_state_18
     [32778, 9223372039002259466, 9223372039002292353,
      9223372036854808704, 2147483649, 9223372039002292232]
   = Some (Inr keccak_state_24)"
  unfolding keccak_state_18_def keccak_state_24_def
    round'_def theta_def piRho_def chi_def iota_def product_5_5 State_zeros_eq Let_def
  by (simp add: bind_simps js_nth2_def js_nth_def set2_def ROT_TABLE_def KECCAK_DIM_def
      KECCAK_WORD_def KECCAK_ELL_def Gadgets_rotate_def Gadgets_and_def Gadgets_not_def
      Field_sub_def Field_from_def Field_new_def Field_ORDER_def Gadgets_xor_contract_64 upt_rec
      cong: bindE_weak_cong bindR_weak_cong)

lemma permutation_empty_block:
  "permutation Gadgets_xor_contract empty_block_state ROUND_CONSTANTS = Some (Inr keccak_state_24)"
proof -
  have "ROUND_CONSTANTS =
      [1, 32898, 9223372036854808714,
      9223372039002292224, 32907, 2147483649] @
      [9223372039002292353, 9223372036854808585, 138,
      136, 2147516425, 2147483658] @
      [2147516555, 9223372036854775947, 9223372036854808713,
      9223372036854808579, 9223372036854808578, 9223372036854775936] @
      [32778, 9223372039002259466, 9223372039002292353,
      9223372036854808704, 2147483649, 9223372039002292232]"
    by (simp add: ROUND_CONSTANTS_def)
  then show ?thesis
    unfolding permutation_def
    by (elim ssubst) (simp only: foldR_append rounds_0_5 rounds_6_11 rounds_12_17 rounds_18_23 bindR_Inr)
qed

lemma absorb_loop_done:
  assumes "int (length paddedMessage) \<le> idx"
  shows "absorb_loop gx paddedMessage zeros rate rc idx state = Some (Inr state)"
  using assms by (subst absorb_loop.simps) simp

lemma case_res_id:
  "(case m of None \<Rightarrow> None | Some (Inl e) \<Rightarrow> Some (Inl e) | Some (Inr s) \<Rightarrow> Some (Inr s)) = m"
  by (simp split: option.splits sum.splits)

lemma absorb_empty_block:
  "absorb gx empty_block 8 17 ROUND_CONSTANTS
   = bindR (State_xor gx State_zeros empty_block_state)
       (\<lambda>stateXor. permutation gx stateXor ROUND_CONSTANTS)"
proof -
  have len: "length empty_block = 17"
    by (simp add: empty_block_def)
  have slice: "js_slice empty_block 0 17 = empty_block"
    using len by (simp add: js_slice_take)
  have zeros: "Field_from 0 = 0"
    by (simp add: Field_from_def Field_new_def Field_ORDER_def)
  have "absorb_loop gx empty_block (replicate 8 0) 17 ROUND_CONSTANTS 0 State_zeros
        = bindR (State_xor gx State_zeros empty_block_state)
            (\<lambda>stateXor. permutation gx stateXor ROUND_CONSTANTS)"
    by (subst absorb_loop.simps)
      (simp add: len slice State_fromWords_empty_block bindR_def absorb_loop_done
        split: option.splits sum.splits)
  then show ?thesis
    by (simp add: absorb_def assert_def bindR_Inr KECCAK_STATE_LENGTH_WORDS_def KECCAK_DIM_def
        js_rem_def len zeros)
qed

lemma ethereum_empty_unfold:
  "ethereum gx [] =
     bindR (bindR (State_xor gx State_zeros empty_block_state)
              (\<lambda>stateXor. permutation gx stateXor ROUND_CONSTANTS))
       (\<lambda>state. bindR (Some (squeeze state 4 17)) (\<lambda>hash. Some (wordsToBytes hash)))"
proof -
  have len: "length empty_block = 17"
    by (simp add: empty_block_def)
  have kc: "BYTES_PER_WORD = 8" "KECCAK_STATE_LENGTH_BYTES = 200" "KECCAK_STATE_LENGTH_WORDS = 25"
    by (simp_all add: BYTES_PER_WORD_def KECCAK_STATE_LENGTH_BYTES_def KECCAK_STATE_LENGTH_def
        KECCAK_STATE_LENGTH_WORDS_def KECCAK_WORD_def KECCAK_ELL_def KECCAK_DIM_def)
  have "sponge gx empty_block 4 8 17 =
     bindR (bindR (State_xor gx State_zeros empty_block_state)
              (\<lambda>stateXor. permutation gx stateXor ROUND_CONSTANTS))
       (\<lambda>state. Some (squeeze state 4 17))"
    by (simp add: sponge_def assert_def js_rem_def len bindR_Inr absorb_empty_block)
  moreover have "bindR (bindR m f) g = bindR m (\<lambda>x. bindR (f x) g)" for m :: "State res"
    and f :: "State \<Rightarrow> State res" and g :: "State \<Rightarrow> int list res"
    by (simp add: bindR_def split: option.splits sum.splits)
  moreover have "bindR (bindR m f) g = bindR m (\<lambda>x. bindR (f x) g)" for m :: "State res"
    and f :: "State \<Rightarrow> int list res" and g :: "int list \<Rightarrow> int list res"
    by (simp add: bindR_def split: option.splits sum.splits)
  ultimately show ?thesis
    by (simp add: ethereum_def preNist_def hash_def kc assert_def js_rem_def bindR_Inr Let_def
        pad_empty_136 bytesToWords_empty_block)
qed

lemma State_xor_zeros_contract:
  "State_xor Gadgets_xor_contract State_zeros empty_block_state = Some (Inr empty_block_state)"
  unfolding empty_block_state_def State_zeros_eq State_xor_def
  by (simp add: bind_simps assert_def js_nth2_def js_nth_def KECCAK_DIM_def
      Gadgets_xor_contract_64 upt_rec cong: bindE_weak_cong bindR_weak_cong)

lemma State_xor_zeros_source:
  "State_xor Gadgets_xor State_zeros empty_block_state = None"
  unfolding empty_block_state_def State_zeros_eq State_xor_def
  by (simp add: bind_simps assert_def js_nth2_def js_nth_def KECCAK_DIM_def
      Gadgets_xor_64 upt_rec cong: bindE_weak_cong bindR_weak_cong)

lemma squeeze_keccak_state_24:
  "squeeze keccak_state_24 4 17 = Inr (take 4 (map (\<lambda>(j, i). keccak_state_24 ! i ! j)
       (List.product [0..<5] [0..<5])))"
  unfolding keccak_state_24_def product_5_5[unfolded KECCAK_DIM_def]
  by (simp add: squeeze_def assert_def bindE_def State_toWords_5x5 js_slice_take)

lemma wordsToBytes_digest:
  "wordsToBytes (take 4 (map (\<lambda>(j, i). keccak_state_24 ! i ! j) (List.product [0..<5] [0..<5])))
   = Inr empty_digest"
  unfolding keccak_state_24_def empty_digest_def by code_simp

lemma ethereum_contract_empty:
  "ethereum Gadgets_xor_contract [] = Some (Inr empty_digest)"
  by (simp only: ethereum_empty_unfold State_xor_zeros_contract bindR_Inr
      permutation_empty_block squeeze_keccak_state_24 wordsToBytes_digest)

lemma ethereum_source_empty:
  "ethereum Gadgets_xor [] = None"
  by (simp only: ethereum_empty_unfold State_xor_zeros_source bindR_None)

lemma toHex_empty_digest:
  "toHex empty_digest = ''c5d2460186f7233c927e7db2dcc703c0e500b653ca82273b7bfad8045d85a470''"
  unfolding empty_digest_def by code_simp

section \<open>The claims about Keccak\<close>

text \<open>
  C4, as amended. With \<^verbatim>\<open>Gadgets.xor\<close> taken at its contract, \<^verbatim>\<open>ethereum([])\<close> returns the
  32 bytes whose hexadecimal encoding is
  \<^verbatim>\<open>c5d2460186f7233c927e7db2dcc703c0e500b653ca82273b7bfad8045d85a470\<close>, 64 digits.
\<close>

theorem ethereum_empty_digest:
  "map_option (map_sum id toHex) (ethereum Gadgets_xor_contract [])
   = Some (Inr ''c5d2460186f7233c927e7db2dcc703c0e500b653ca82273b7bfad8045d85a470'')"
  by (simp add: ethereum_contract_empty toHex_empty_digest)

text \<open>
  C4 as stated fails: the digest has 32 bytes and so 64 hexadecimal digits, the string of the
  claim has 63. With the recursive gadget of the sources as \<^verbatim>\<open>Gadgets.xor\<close> the call does
  not return at all, since every XOR of Keccak has the length 64.
\<close>

theorem ethereum_empty_counterexample:
  "map_option (map_sum id toHex) (ethereum Gadgets_xor_contract [])
     \<noteq> Some (Inr ''c5d2460186f7233c927e7db2dcc703c0e500b653ca82273b7bfad8045d85a47'')
   \<and> ethereum Gadgets_xor [] = None"
  by (simp add: ethereum_contract_empty toHex_empty_digest ethereum_source_empty)

text \<open>
  C5, as amended. For every message \<open>m\<close>, every flag and every rate \<open>rate > 0\<close> such that
  the padded length \<open>length m + (rate - length m mod rate)\<close> is below \<open>2 ^ 32\<close>, the bound
  on the length of a JavaScript array, \<^verbatim>\<open>pad(m, rate, nist)\<close> returns \<open>m\<close> followed by
  \<open>rate - length m mod rate\<close> bytes of padding: a list whose length is a multiple of the
  rate, and is \<open>length m + rate\<close> when the length of \<open>m\<close> is already a multiple of the rate.
\<close>

theorem pad_length:
  assumes "0 < rate" "int (length m) + (rate - int (length m) mod rate) < 2 ^ 32"
  shows "\<exists>q. pad m rate nist = Inr (m @ q)
           \<and> int (length q) = rate - int (length m) mod rate
           \<and> int (length (m @ q)) mod rate = 0
           \<and> (int (length m) mod rate = 0 \<longrightarrow> int (length (m @ q)) = int (length m) + rate)"
proof -
  have lt: "int (length m) mod rate < rate" and ge: "0 \<le> int (length m) mod rate"
    using assms(1) by simp_all
  let ?e = "rate - int (length m) mod rate"
  have fits: "?e \<le> 2 ^ 32 - 1"
    using assms(2) by simp
  have "(int (length m) + ?e) mod rate = (int (length m) - int (length m) mod rate + rate) mod rate"
    by (simp add: algebra_simps)
  also have "\<dots> = 0"
    by (simp add: minus_mod_eq_mult_div)
  finally have "(int (length m) + ?e) mod rate = 0" .
  then show ?thesis
    using lt ge by (simp add: pad_pos[OF assms(1) fits])
qed

theorem pad_length_witness:
  "(0::int) < 4 \<and> int (length [1, 2, 3, 4 :: int]) + (4 - int (length [1, 2, 3, 4 :: int]) mod 4) < 2 ^ 32
   \<and> int (length [1, 2, 3, 4 :: int]) mod 4 = 0
   \<and> (\<exists>q. pad [1, 2, 3, 4] 4 True = Inr ([1, 2, 3, 4] @ q) \<and> int (length q) = 4
          \<and> int (length ([1, 2, 3, 4] @ q)) mod 4 = 0
          \<and> int (length ([1, 2, 3, 4] @ q)) = 4 + 4)"
  using pad_length[of 4 "[1, 2, 3, 4]" True] by simp

text \<open>
  C5 as stated fails for a rate of \<open>2 ^ 32\<close>: the empty message needs \<open>2 ^ 32\<close> bytes of
  padding, \<^verbatim>\<open>Array(4294967296)\<close> raises a RangeError and \<^verbatim>\<open>pad\<close> returns no list.
\<close>

theorem pad_length_counterexample:
  "(0::int) < 4294967296 \<and> pad [] 4294967296 True = Inl RangeError"
  by (simp add: pad_def bytesToPad_def js_rem_def)

text \<open>
  C6, as amended. For a rate \<open>rate > 0\<close> and a state of 25 words, \<^verbatim>\<open>squeeze(state, len, rate)\<close>
  returns the first \<open>len\<close> words when \<open>0 \<le> len < rate\<close>, which is when
  \<^verbatim>\<open>Math.floor(len / rate) + 1 == 1\<close>, and throws otherwise: also at \<open>len = rate\<close>, where the
  output would still fit within one rate.
\<close>

theorem squeeze_single:
  assumes "State_toWords state = Inr words" "0 < rate"
  shows "squeeze state len rate =
           (if 0 \<le> len \<and> len < rate then Inr (take (nat len) words) else Inl AssertionError)"
proof (cases "0 \<le> len \<and> len < rate")
  case True
  then have "len div rate = 0"
    by (simp add: div_pos_pos_trivial)
  then show ?thesis
    using True assms by (simp add: squeeze_def assert_def bindE_def js_slice_take)
next
  case False
  have "len div rate \<noteq> 0"
  proof
    assume "len div rate = 0"
    then have "0 \<le> len \<and> len < rate"
      using assms(2) by (auto simp: zdiv_eq_0_iff)
    with False show False ..
  qed
  then show ?thesis
    using False by (simp add: squeeze_def assert_def bindE_def)
qed

theorem squeeze_single_witness:
  "State_toWords State_zeros = Inr (replicate 25 0) \<and> (0::int) < 17
   \<and> squeeze State_zeros 4 17 = Inr [0, 0, 0, 0]
   \<and> squeeze State_zeros 18 17 = Inl AssertionError"
proof -
  have w: "State_toWords State_zeros = Inr (replicate 25 0)"
    unfolding State_zeros_eq State_toWords_5x5 by (simp add: eval_nat_numeral)
  show ?thesis
    using squeeze_single[OF w, of 17 4] squeeze_single[OF w, of 17 18] w
    by (simp add: eval_nat_numeral)
qed

text \<open>
  C6 as stated fails at \<open>len = rate = 17\<close>: 17 words fit within one rate of 17 words and
  need one squeeze round, the state holds 25 words, and \<^verbatim>\<open>squeeze\<close> throws.
\<close>

theorem squeeze_counterexample:
  "squeeze State_zeros 17 17 = Inl AssertionError
   \<and> (\<exists>words. State_toWords State_zeros = Inr words \<and> 17 \<le> length words)"
  unfolding State_zeros_eq State_toWords_5x5
  by (simp add: squeeze_def assert_def bindE_def)

text \<open>
  C7. For every list of bytes whose length is a multiple of 8 and whose entries are below
  256, \<^verbatim>\<open>wordsToBytes(bytesToWords(bytes))\<close> returns \<open>bytes\<close>.
\<close>

theorem bytes_words_roundtrip:
  assumes "length bytes mod 8 = 0" "\<forall>b\<in>set bytes. 0 \<le> b \<and> b < 256"
  shows "bindE (bytesToWords bytes) wordsToBytes = Inr bytes"
proof -
  let ?chunks = "map (\<lambda>i. take 8 (drop (8 * i) bytes)) [0..<length bytes div 8]"
  have len: "length bytes = 8 * (length bytes div 8)"
    using assms(1) by presburger
  have each: "wordToBytes (bytesToWord c) = Inr c" if "c \<in> set ?chunks" for c
  proof -
    from that have "c \<in> (\<lambda>i. take 8 (drop (8 * i) bytes)) ` {0..<length bytes div 8}"
      by (simp only: set_map set_upt)
    then obtain i where i: "i < length bytes div 8" and c: "c = take 8 (drop (8 * i) bytes)"
      by auto
    have "8 * i + 8 \<le> length bytes"
      using i len by linarith
    then have "length c = 8"
      unfolding c by simp
    moreover have "set c \<subseteq> set bytes"
      unfolding c by (meson set_take_subset set_drop_subset subset_trans)
    ultimately show ?thesis
      using assms(2) by (intro wordToBytes_bytesToWord) auto
  qed
  have "mapE wordToBytes (map bytesToWord ?chunks) = Inr (map id ?chunks)"
  proof -
    have "mapE (wordToBytes \<circ> bytesToWord) ?chunks = Inr (map id ?chunks)"
      using each by (intro mapE_all) simp
    moreover have "mapE f (map g xs) = mapE (f \<circ> g) xs" for f :: "int \<Rightarrow> error + int list"
      and g :: "int list \<Rightarrow> int" and xs
      by (induction xs) simp_all
    ultimately show ?thesis by (simp only:)
  qed
  then have "wordsToBytes (map bytesToWord ?chunks) = Inr (concat ?chunks)"
    by (simp add: wordsToBytes_def bindE_def)
  also have "concat ?chunks = bytes"
    using len by (rule concat_chunks)
  finally show ?thesis
    by (simp add: bytesToWords_def chunk_8[OF assms(1)] bindE_def)
qed

theorem bytes_words_roundtrip_witness:
  "length [1, 2, 3, 4, 5, 6, 7, 255, 0, 10, 11, 12, 13, 14, 15, 16 :: int] mod 8 = 0
   \<and> bindE (bytesToWords [1, 2, 3, 4, 5, 6, 7, 255, 0, 10, 11, 12, 13, 14, 15, 16]) wordsToBytes
       = Inr [1, 2, 3, 4, 5, 6, 7, 255, 0, 10, 11, 12, 13, 14, 15, 16]"
  using bytes_words_roundtrip[of "[1, 2, 3, 4, 5, 6, 7, 255, 0, 10, 11, 12, 13, 14, 15, 16]"]
  by simp

text \<open>
  C8, as amended. \<^verbatim>\<open>State.xor(a, b)\<close> fails with an assertion when \<open>a\<close> or \<open>b\<close> does not have
  exactly 5 rows or its first row does not have exactly 5 entries, whatever the XOR gadget
  is. The other rows are not checked.
\<close>

theorem State_xor_dimensions:
  assumes "length a \<noteq> 5 \<or> length (a ! 0) \<noteq> 5 \<or> length b \<noteq> 5 \<or> length (b ! 0) \<noteq> 5"
  shows "State_xor gx a b = Some (Inl AssertionError)"
  using assms by (auto simp: State_xor_def assert_def bindR_def KECCAK_DIM_def)

theorem State_xor_dimensions_witness:
  "length (replicate 4 (replicate 5 (0::int))) \<noteq> 5
   \<and> State_xor Gadgets_xor (replicate 4 (replicate 5 0)) State_zeros = Some (Inl AssertionError)
   \<and> length [[1, 2, 3, 4 :: int], [], [], [], []] = 5
   \<and> length ([[1, 2, 3, 4 :: int], [], [], [], []] ! 0) \<noteq> 5
   \<and> State_xor Gadgets_xor State_zeros [[1, 2, 3, 4], [], [], [], []] = Some (Inl AssertionError)"
  using State_xor_dimensions[of "replicate 4 (replicate 5 0)" State_zeros Gadgets_xor]
    State_xor_dimensions[of State_zeros "[[1, 2, 3, 4], [], [], [], []]" Gadgets_xor]
  by simp

text \<open>
  C8 as stated fails for an \<open>a\<close> of 5 rows whose first row has 5 entries and whose other
  rows are empty: both assertions pass. With the gadget at its contract the call returns a
  matrix of the same shape; with the recursive gadget of the sources it does not return.
  Neither is a failed assertion.
\<close>

theorem State_xor_counterexample:
  "State_xor Gadgets_xor_contract [[0, 0, 0, 0, 0], [], [], [], []] State_zeros
     = Some (Inr [[0, 0, 0, 0, 0], [], [], [], []])
   \<and> State_xor Gadgets_xor [[0, 0, 0, 0, 0], [], [], [], []] State_zeros = None"
proof -
  have c: "Gadgets_xor_contract 0 0 64 = Some (Inr 0)"
    using Gadgets_xor_contract_64[of 0 0] by simp
  have s: "Gadgets_xor 0 0 64 = None"
    using Gadgets_xor_64[of 0 0] by simp
  show ?thesis
    unfolding State_zeros_eq
    by (simp add: State_xor_def assert_def bindR_def bindE_def KECCAK_DIM_def js_nth2_def
        js_nth_def c s upt_rec)
qed

text \<open>
  C9. When exactly one byte of padding is needed, \<open>length m mod rate = rate - 1\<close>, \<^verbatim>\<open>pad\<close>
  appends the single byte \<open>0x86\<close> in the NIST case and \<open>0x81\<close> otherwise: the marker of the
  first byte and the final bit \<open>0x80\<close> are added in the same byte.
\<close>

theorem pad_single_byte:
  assumes "0 < rate" "int (length m) mod rate = rate - 1"
  shows "pad m rate nist = Inr (m @ [if nist then 0x86 else 0x81])"
proof -
  have "Field_add 6 128 = 0x86" "Field_add 1 128 = 0x81"
    by (simp_all add: Field_add_def Field_ORDER_def)
  moreover have "rate - int (length m) mod rate \<le> 2 ^ 32 - 1"
    using assms(2) by simp
  ultimately show ?thesis
    using assms by (simp add: pad_pos[OF assms(1)])
qed

theorem pad_single_byte_witness:
  "(0::int) < 4 \<and> int (length [1, 2, 3 :: int]) mod 4 = 4 - 1
   \<and> pad [1, 2, 3] 4 True = Inr [1, 2, 3, 0x86] \<and> pad [1, 2, 3] 4 False = Inr [1, 2, 3, 0x81]"
  using pad_single_byte[of 4 "[1, 2, 3]" True] pad_single_byte[of 4 "[1, 2, 3]" False] by simp

text \<open>
  C10. For every list \<open>w\<close> of exactly 25 words, \<^verbatim>\<open>State.toWords(State.fromWords(w))\<close> returns
  \<open>w\<close>, and \<^verbatim>\<open>fromWords\<close> places \<open>w[5 * j + i]\<close> at the position \<open>[i][j]\<close> of the state.
\<close>

theorem State_words_roundtrip:
  assumes "length w = 25"
  shows "bindE (State_fromWords w) State_toWords = Inr w
         \<and> (\<exists>state. State_fromWords w = Inr state
              \<and> (\<forall>i<5. \<forall>j<5. state ! i ! j = w ! (5 * j + i)))"
proof -
  have "bindE (State_fromWords w) State_toWords = Inr w"
    unfolding State_fromWords_25[OF assms] bindE_def sum.case State_toWords_5x5
    using list_25[OF assms] by simp
  moreover have "\<forall>i<5. \<forall>j<5.
      [[w ! 0, w ! 5, w ! 10, w ! 15, w ! 20],
       [w ! 1, w ! 6, w ! 11, w ! 16, w ! 21],
       [w ! 2, w ! 7, w ! 12, w ! 17, w ! 22],
       [w ! 3, w ! 8, w ! 13, w ! 18, w ! 23],
       [w ! 4, w ! 9, w ! 14, w ! 19, w ! 24]] ! i ! j = w ! (5 * j + i)"
    by (simp add: less_Suc_eq numeral_eq_Suc all_conj_distrib)
  ultimately show ?thesis
    unfolding State_fromWords_25[OF assms] by blast
qed

theorem State_words_roundtrip_witness:
  "length [0, 1, 2, 3, 4, 5, 6, 7, 8, 9, 10, 11, 12, 13, 14, 15, 16, 17, 18, 19, 20, 21, 22, 23,
           24 :: int] = 25
   \<and> bindE (State_fromWords [0, 1, 2, 3, 4, 5, 6, 7, 8, 9, 10, 11, 12, 13, 14, 15, 16, 17, 18,
                               19, 20, 21, 22, 23, 24]) State_toWords
       = Inr [0, 1, 2, 3, 4, 5, 6, 7, 8, 9, 10, 11, 12, 13, 14, 15, 16, 17, 18, 19, 20, 21, 22,
              23, 24]
   \<and> (\<exists>state. State_fromWords [0, 1, 2, 3, 4, 5, 6, 7, 8, 9, 10, 11, 12, 13, 14, 15, 16, 17,
                                 18, 19, 20, 21, 22, 23, 24] = Inr state
          \<and> (2::nat) < 5 \<and> (3::nat) < 5 \<and> state ! 2 ! 3 = 17)"
proof -
  let ?w = "[0, 1, 2, 3, 4, 5, 6, 7, 8, 9, 10, 11, 12, 13, 14, 15, 16, 17, 18, 19, 20, 21, 22,
             23, 24 :: int]"
  have len: "length ?w = 25"
    by simp
  from State_words_roundtrip[OF len] obtain state where
    rt: "bindE (State_fromWords ?w) State_toWords = Inr ?w"
    and st: "State_fromWords ?w = Inr state"
    and at: "\<forall>i<5. \<forall>j<5. state ! i ! j = ?w ! (5 * j + i)"
    by blast
  from at have "state ! 2 ! 3 = ?w ! (5 * 3 + 2)"
    by simp
  then have "state ! 2 ! 3 = 17"
    by simp
  with len rt st show ?thesis
    by simp
qed

end
